theory Spec2Isabelle
  imports Main "HOL-Library.Code_Target_Nat"
begin

section \<open>Storage, objects and the element type\<close>

text \<open>
  The container of \<^verbatim>\<open>vector.h\<close> manages raw storage by hand: it allocates blocks with
  \<^verbatim>\<open>operator new\<close>, starts the lifetime of an element with placement \<^verbatim>\<open>new\<close> and ends it
  with an explicit destructor call. The model keeps exactly that: a block is a list of
  slots, a slot is raw storage or holds an object, and every operation of the source is a
  function on the store.

  A pointer \<^verbatim>\<open>T*\<close> is a block (\<open>None\<close> for \<^verbatim>\<open>nullptr\<close>) and an offset in it. Lengths are
  natural numbers: a \<^verbatim>\<open>size_t\<close> that counts the slots of one allocated block stays far
  below \<open>2 ^ 63\<close>, so the doubling \<^verbatim>\<open>size_ * 2\<close> never wraps. The byte count
  \<^verbatim>\<open>n * sizeof(T)\<close> of \<^verbatim>\<open>Allocate\<close> is different: \<open>n\<close> may be any number the caller of
  \<^verbatim>\<open>Reserve\<close>, \<^verbatim>\<open>Resize\<close> or \<^verbatim>\<open>Vector(n)\<close> chooses, and the product is computed in the 64 bits
  of \<^verbatim>\<open>size_t\<close>, so it is written with its wrap-around.
\<close>

datatype 'a slot = Raw | Obj 'a

type_synonym ptr = "nat option \<times> nat"

datatype event =
    ValueCtor ptr
  | ArgsCtor ptr
  | CopyCtor ptr
  | MoveCtor ptr
  | CopyAssign ptr
  | MoveAssign ptr
  | Dtor ptr

text \<open>
  \<open>BadAlloc\<close> and \<open>ElemThrow\<close> are the two C++ exceptions of the program (the memory
  source fails; a constructor or an assignment of \<open>T\<close> throws). \<open>AssertFailed\<close> is a failed
  \<^verbatim>\<open>assert\<close> (the model is the build with assertions on) and \<open>Undefined\<close> stands for
  behaviour the language leaves undefined, such as reading raw storage as an object;
  neither of the two unwinds the stack.
\<close>

datatype error = BadAlloc | ElemThrow | AssertFailed | Undefined

fun unwinds :: "error \<Rightarrow> bool" where
  "unwinds BadAlloc = True"
| "unwinds ElemThrow = True"
| "unwinds AssertFailed = False"
| "unwinds Undefined = False"

text \<open>
  The store: the allocated blocks, the next block the memory source hands out, the number
  of slots it can still provide, the log of the special member functions of \<open>T\<close> that have
  run (each with the slot it ran on), and the number of objects whose storage was released
  while they were still alive.
\<close>

record 'a world =
  heap :: "nat \<Rightarrow> 'a slot list option"
  fresh :: nat
  avail :: nat
  trace :: "event list"
  lost :: nat

text \<open>
  What the container may ask of its element type \<open>T\<close>: \<^verbatim>\<open>sizeof(T)\<close>, the two traits read by
  \<^verbatim>\<open>if constexpr\<close>, the value a value-initialised \<open>T\<close> has, which operations throw (decided by
  the value they read or build), and the value a moved-from object is left with.

  The last field says what an assignment does when its destination is storage without an
  object. The language leaves that undefined. Where the assignment operators of \<open>T\<close> do
  not use the old state of the destination (an \<^verbatim>\<open>int\<close>, or a class that only copies its
  members and counts its calls) the compiled program stores the value, and
  \<open>assign_to_raw_stores\<close> is true for such a \<open>T\<close>; for every other \<open>T\<close> the assignment is
  undefined in the model as it is in the language.
\<close>

record 'a traits =
  sizeof_T :: nat
  nothrow_move_constructible :: bool
  copy_constructible :: bool
  default_value :: 'a
  default_ctor_throws :: bool
  args_ctor_throws :: "'a \<Rightarrow> bool"
  copy_ctor_throws :: "'a \<Rightarrow> bool"
  move_ctor_throws :: "'a \<Rightarrow> bool"
  copy_assign_throws :: "'a \<Rightarrow> bool"
  move_assign_throws :: "'a \<Rightarrow> bool"
  moved_from :: "'a \<Rightarrow> 'a"
  assign_to_raw_stores :: bool

definition bind :: "('s \<Rightarrow> (error + 'x) \<times> 's) \<Rightarrow> ('x \<Rightarrow> 's \<Rightarrow> (error + 'y) \<times> 's) \<Rightarrow>
    's \<Rightarrow> (error + 'y) \<times> 's" where
  "bind m f s = (case m s of (Inl e, s1) \<Rightarrow> (Inl e, s1) | (Inr x, s1) \<Rightarrow> f x s1)"

text \<open>A \<^verbatim>\<open>catch (...)\<close> handler that cleans up and rethrows: it runs on an exception only.\<close>

definition on_throw :: "('s \<Rightarrow> (error + unit) \<times> 's) \<Rightarrow> (error + 'x) \<times> 's \<Rightarrow> (error + 'x) \<times> 's" where
  "on_throw cleanup r =
     (case r of
        (Inr x, s) \<Rightarrow> (Inr x, s)
      | (Inl e, s) \<Rightarrow>
          if unwinds e
          then (case cleanup s of (Inl e', s') \<Rightarrow> (Inl e', s') | (Inr _, s') \<Rightarrow> (Inl e, s'))
          else (Inl e, s))"

text \<open>The destructor of a local object: it runs when the scope is left, normally or by an exception.\<close>

definition at_scope_exit :: "('s \<Rightarrow> (error + unit) \<times> 's) \<Rightarrow> (error + 'x) \<times> 's \<Rightarrow> (error + 'x) \<times> 's" where
  "at_scope_exit cleanup r =
     (case r of
        (Inr x, s) \<Rightarrow> (case cleanup s of (Inl e', s') \<Rightarrow> (Inl e', s') | (Inr _, s') \<Rightarrow> (Inr x, s'))
      | (Inl e, s) \<Rightarrow>
          if unwinds e
          then (case cleanup s of (Inl e', s') \<Rightarrow> (Inl e', s') | (Inr _, s') \<Rightarrow> (Inl e, s'))
          else (Inl e, s))"

subsection \<open>Pointers and slots\<close>

definition ptr_add :: "ptr \<Rightarrow> nat \<Rightarrow> ptr" where
  "ptr_add p k = (fst p, snd p + k)"

definition ptr_sub :: "ptr \<Rightarrow> nat \<Rightarrow> ptr" where
  "ptr_sub p k = (fst p, snd p - k)"

definition slot_at :: "'a world \<Rightarrow> ptr \<Rightarrow> 'a slot option" where
  "slot_at w p =
     (case fst p of
        None \<Rightarrow> None
      | Some b \<Rightarrow>
          (case heap w b of
             None \<Rightarrow> None
           | Some xs \<Rightarrow> if snd p < length xs then Some (xs ! snd p) else None))"

definition put_slot :: "ptr \<Rightarrow> 'a slot \<Rightarrow> 'a world \<Rightarrow> 'a world" where
  "put_slot p s w =
     (case fst p of
        None \<Rightarrow> w
      | Some b \<Rightarrow>
          (case heap w b of
             None \<Rightarrow> w
           | Some xs \<Rightarrow> w\<lparr>heap := (heap w)(b \<mapsto> xs[snd p := s])\<rparr>))"

definition log_event :: "event \<Rightarrow> 'a world \<Rightarrow> 'a world" where
  "log_event e w = w\<lparr>trace := trace w @ [e]\<rparr>"

subsection \<open>The special member functions of \<open>T\<close>, run on slots\<close>

text \<open>
  Placement \<^verbatim>\<open>new (dst) T(*src)\<close>. The source must be an object and the destination must be
  storage of an allocated block; whatever the destination held is overwritten.
\<close>

definition construct_copy :: "'a traits \<Rightarrow> ptr \<Rightarrow> ptr \<Rightarrow> 'a world \<Rightarrow> (error + unit) \<times> 'a world" where
  "construct_copy t src dst w =
     (case (slot_at w src, slot_at w dst) of
        (Some (Obj x), Some _) \<Rightarrow>
          if copy_ctor_throws t x then (Inl ElemThrow, w)
          else (Inr (), log_event (CopyCtor dst) (put_slot dst (Obj x) w))
      | _ \<Rightarrow> (Inl Undefined, w))"

text \<open>Placement \<^verbatim>\<open>new (dst) T(std::move(*src))\<close>: the source keeps a moved-from object.\<close>

definition construct_move :: "'a traits \<Rightarrow> ptr \<Rightarrow> ptr \<Rightarrow> 'a world \<Rightarrow> (error + unit) \<times> 'a world" where
  "construct_move t src dst w =
     (case (slot_at w src, slot_at w dst) of
        (Some (Obj x), Some _) \<Rightarrow>
          if move_ctor_throws t x then (Inl ElemThrow, w)
          else (Inr (), log_event (MoveCtor dst)
                  (put_slot dst (Obj x) (put_slot src (Obj (moved_from t x)) w)))
      | _ \<Rightarrow> (Inl Undefined, w))"

text \<open>Placement \<^verbatim>\<open>new (dst) T()\<close>.\<close>

definition construct_value :: "'a traits \<Rightarrow> ptr \<Rightarrow> 'a world \<Rightarrow> (error + unit) \<times> 'a world" where
  "construct_value t dst w =
     (case slot_at w dst of
        Some _ \<Rightarrow>
          if default_ctor_throws t then (Inl ElemThrow, w)
          else (Inr (), log_event (ValueCtor dst) (put_slot dst (Obj (default_value t)) w))
      | None \<Rightarrow> (Inl Undefined, w))"

text \<open>\<^verbatim>\<open>p->~T()\<close>: the slot is raw storage afterwards. Destructors do not throw.\<close>

definition destroy_at :: "ptr \<Rightarrow> 'a world \<Rightarrow> (error + unit) \<times> 'a world" where
  "destroy_at p w =
     (case slot_at w p of
        Some (Obj x) \<Rightarrow> (Inr (), log_event (Dtor p) (put_slot p Raw w))
      | _ \<Rightarrow> (Inl Undefined, w))"

text \<open>
  \<^verbatim>\<open>*dst = *src\<close> and \<^verbatim>\<open>*dst = std::move(*src)\<close>. Both sides must be objects. The source of
  \<^verbatim>\<open>vector.h\<close> also assigns to slots whose object it has just destroyed (\<^verbatim>\<open>Erase\<close>,
  \<^verbatim>\<open>Emplace\<close>) or never constructed (\<^verbatim>\<open>CopyToFilledVector\<close>): that is undefined, unless
  \<open>T\<close> is a type for which \<open>assign_to_raw_stores\<close> holds, where the value is stored.
\<close>

definition assign_copy :: "'a traits \<Rightarrow> ptr \<Rightarrow> ptr \<Rightarrow> 'a world \<Rightarrow> (error + unit) \<times> 'a world" where
  "assign_copy t src dst w =
     (case (slot_at w src, slot_at w dst) of
        (Some (Obj x), Some d) \<Rightarrow>
          if d = Raw \<and> \<not> assign_to_raw_stores t then (Inl Undefined, w)
          else if copy_assign_throws t x then (Inl ElemThrow, w)
          else (Inr (), log_event (CopyAssign dst) (put_slot dst (Obj x) w))
      | _ \<Rightarrow> (Inl Undefined, w))"

definition assign_move :: "'a traits \<Rightarrow> ptr \<Rightarrow> ptr \<Rightarrow> 'a world \<Rightarrow> (error + unit) \<times> 'a world" where
  "assign_move t src dst w =
     (case (slot_at w src, slot_at w dst) of
        (Some (Obj x), Some d) \<Rightarrow>
          if d = Raw \<and> \<not> assign_to_raw_stores t then (Inl Undefined, w)
          else if move_assign_throws t x then (Inl ElemThrow, w)
          else (Inr (), log_event (MoveAssign dst)
                  (put_slot dst (Obj x) (put_slot src (Obj (moved_from t x)) w)))
      | _ \<Rightarrow> (Inl Undefined, w))"

section \<open>\<^verbatim>\<open>RawMemory<T>\<close>\<close>

record raw_memory =
  buffer :: "nat option"
  capacity :: nat

text \<open>
  The memory source. \<^verbatim>\<open>operator new\<close> is asked for a number of bytes and hands out a block
  that is not in use, or throws \<^verbatim>\<open>std::bad_alloc\<close>. The block is used as an array of \<open>T\<close>
  and holds as many slots as fit into the bytes asked for; what the memory source can
  still provide is counted in slots of \<open>T\<close>. \<^verbatim>\<open>operator delete\<close> releases a block and runs
  no destructor: objects still alive in the block are lost. Deleting \<^verbatim>\<open>nullptr\<close> does
  nothing.
\<close>

definition operator_new :: "'a traits \<Rightarrow> nat \<Rightarrow> 'a world \<Rightarrow> (error + nat) \<times> 'a world" where
  "operator_new t bytes w =
     (if bytes div sizeof_T t \<le> avail w
      then (Inr (fresh w),
            w\<lparr>heap := (heap w)(fresh w \<mapsto> replicate (bytes div sizeof_T t) Raw),
              fresh := Suc (fresh w),
              avail := avail w - bytes div sizeof_T t\<rparr>)
      else (Inl BadAlloc, w))"

definition operator_delete :: "nat option \<Rightarrow> 'a world \<Rightarrow> (error + unit) \<times> 'a world" where
  "operator_delete buf w =
     (case buf of
        None \<Rightarrow> (Inr (), w)
      | Some b \<Rightarrow>
          (case heap w b of
             None \<Rightarrow> (Inl Undefined, w)
           | Some xs \<Rightarrow>
               (Inr (), w\<lparr>heap := (heap w)(b := None),
                          avail := avail w + length xs,
                          lost := lost w + length (filter (\<lambda>s. s \<noteq> Raw) xs)\<rparr>)))"

text \<open>
  \<^verbatim>\<open>Allocate\<close>: \<^verbatim>\<open>n != 0 ? operator new(n * sizeof(T)) : nullptr\<close>, the product in \<^verbatim>\<open>size_t\<close>.
\<close>

definition Allocate :: "'a traits \<Rightarrow> nat \<Rightarrow> 'a world \<Rightarrow> (error + nat option) \<times> 'a world" where
  "Allocate t n w =
     (if n \<noteq> 0
      then (case operator_new t ((n * sizeof_T t) mod 2 ^ 64) w of
              (Inl e, w1) \<Rightarrow> (Inl e, w1)
            | (Inr b, w1) \<Rightarrow> (Inr (Some b), w1))
      else (Inr None, w))"

definition Deallocate :: "nat option \<Rightarrow> 'a world \<Rightarrow> (error + unit) \<times> 'a world" where
  "Deallocate buf w = operator_delete buf w"

definition RawMemory_default :: raw_memory where
  "RawMemory_default = \<lparr>buffer = None, capacity = 0\<rparr>"

definition RawMemory_ctor :: "'a traits \<Rightarrow> nat \<Rightarrow> 'a world \<Rightarrow> (error + raw_memory) \<times> 'a world" where
  "RawMemory_ctor t n w =
     (case Allocate t n w of
        (Inl e, w1) \<Rightarrow> (Inl e, w1)
      | (Inr b, w1) \<Rightarrow> (Inr \<lparr>buffer = b, capacity = n\<rparr>, w1))"

definition RawMemory_dtor :: "raw_memory \<Rightarrow> 'a world \<Rightarrow> (error + unit) \<times> 'a world" where
  "RawMemory_dtor rm w = Deallocate (buffer rm) w"

text \<open>\<^verbatim>\<open>Swap\<close> exchanges the two fields of \<open>this\<close> and \<open>other\<close>; the pair is (\<open>this\<close>, \<open>other\<close>).\<close>

definition RawMemory_Swap :: "raw_memory \<Rightarrow> raw_memory \<Rightarrow> raw_memory \<times> raw_memory" where
  "RawMemory_Swap this other =
     (this\<lparr>buffer := buffer other, capacity := capacity other\<rparr>,
      other\<lparr>buffer := buffer this, capacity := capacity this\<rparr>)"

text \<open>
  The move constructor: \<open>this\<close> starts from the default member initialisers
  (\<^verbatim>\<open>buffer_ = nullptr\<close>, \<^verbatim>\<open>capacity_ = 0\<close>) and swaps with \<open>other\<close>. The pair is (the new
  object, \<open>other\<close> afterwards).
\<close>

definition RawMemory_move_ctor :: "raw_memory \<Rightarrow> raw_memory \<times> raw_memory" where
  "RawMemory_move_ctor other = RawMemory_Swap RawMemory_default other"

text \<open>
  Move assignment compares the addresses of the two objects, so the objects live in a
  store of their own, indexed by address.
\<close>

definition RawMemory_move_assign :: "nat \<Rightarrow> nat \<Rightarrow> (nat \<Rightarrow> raw_memory) \<Rightarrow> (nat \<Rightarrow> raw_memory)" where
  "RawMemory_move_assign this rhs st =
     (if this \<noteq> rhs
      then (case RawMemory_Swap (st this) (st rhs) of (a, b) \<Rightarrow> st(this := a, rhs := b))
      else st)"

definition GetAddress :: "raw_memory \<Rightarrow> ptr" where
  "GetAddress rm = (buffer rm, 0)"

definition Capacity_raw :: "raw_memory \<Rightarrow> nat" where
  "Capacity_raw rm = capacity rm"

text \<open>\<^verbatim>\<open>operator+\<close> and \<^verbatim>\<open>operator[]\<close>, each behind its assertion.\<close>

definition raw_plus :: "raw_memory \<Rightarrow> nat \<Rightarrow> error + ptr" where
  "raw_plus rm offset = (if offset \<le> capacity rm then Inr (buffer rm, offset) else Inl AssertFailed)"

definition raw_index :: "raw_memory \<Rightarrow> nat \<Rightarrow> error + ptr" where
  "raw_index rm index = (if index < capacity rm then Inr (buffer rm, index) else Inl AssertFailed)"

section \<open>The algorithms of the standard library the container calls\<close>

text \<open>\<^verbatim>\<open>std::destroy_n(first, n)\<close>: destructor calls in ascending order.\<close>

fun destroy_n :: "ptr \<Rightarrow> nat \<Rightarrow> 'a world \<Rightarrow> (error + unit) \<times> 'a world" where
  "destroy_n first 0 w = (Inr (), w)"
| "destroy_n first (Suc n) w =
     (case destroy_at first w of
        (Inl e, w1) \<Rightarrow> (Inl e, w1)
      | (Inr _, w1) \<Rightarrow> destroy_n (ptr_add first 1) n w1)"

text \<open>
  \<^verbatim>\<open>std::uninitialized_copy_n\<close>, \<^verbatim>\<open>std::uninitialized_move_n\<close> and
  \<^verbatim>\<open>std::uninitialized_value_construct_n\<close>: construct \<open>n\<close> objects in ascending order; if a
  constructor throws, the objects already constructed (from \<open>d_first\<close> up to the current
  slot) are destroyed and the exception is rethrown.
\<close>

fun uninitialized_copy_loop ::
  "'a traits \<Rightarrow> ptr \<Rightarrow> ptr \<Rightarrow> nat \<Rightarrow> ptr \<Rightarrow> 'a world \<Rightarrow> (error + unit) \<times> 'a world" where
  "uninitialized_copy_loop t d_first src 0 cur w = (Inr (), w)"
| "uninitialized_copy_loop t d_first src (Suc n) cur w =
     (case construct_copy t src cur w of
        (Inl e, w1) \<Rightarrow> on_throw (destroy_n d_first (snd cur - snd d_first)) (Inl e, w1)
      | (Inr _, w1) \<Rightarrow> uninitialized_copy_loop t d_first (ptr_add src 1) n (ptr_add cur 1) w1)"

definition uninitialized_copy_n ::
  "'a traits \<Rightarrow> ptr \<Rightarrow> nat \<Rightarrow> ptr \<Rightarrow> 'a world \<Rightarrow> (error + unit) \<times> 'a world" where
  "uninitialized_copy_n t first n d_first w = uninitialized_copy_loop t d_first first n d_first w"

fun uninitialized_move_loop ::
  "'a traits \<Rightarrow> ptr \<Rightarrow> ptr \<Rightarrow> nat \<Rightarrow> ptr \<Rightarrow> 'a world \<Rightarrow> (error + unit) \<times> 'a world" where
  "uninitialized_move_loop t d_first src 0 cur w = (Inr (), w)"
| "uninitialized_move_loop t d_first src (Suc n) cur w =
     (case construct_move t src cur w of
        (Inl e, w1) \<Rightarrow> on_throw (destroy_n d_first (snd cur - snd d_first)) (Inl e, w1)
      | (Inr _, w1) \<Rightarrow> uninitialized_move_loop t d_first (ptr_add src 1) n (ptr_add cur 1) w1)"

definition uninitialized_move_n ::
  "'a traits \<Rightarrow> ptr \<Rightarrow> nat \<Rightarrow> ptr \<Rightarrow> 'a world \<Rightarrow> (error + unit) \<times> 'a world" where
  "uninitialized_move_n t first n d_first w = uninitialized_move_loop t d_first first n d_first w"

fun uninitialized_value_construct_loop ::
  "'a traits \<Rightarrow> ptr \<Rightarrow> nat \<Rightarrow> ptr \<Rightarrow> 'a world \<Rightarrow> (error + unit) \<times> 'a world" where
  "uninitialized_value_construct_loop t first 0 cur w = (Inr (), w)"
| "uninitialized_value_construct_loop t first (Suc n) cur w =
     (case construct_value t cur w of
        (Inl e, w1) \<Rightarrow> on_throw (destroy_n first (snd cur - snd first)) (Inl e, w1)
      | (Inr _, w1) \<Rightarrow> uninitialized_value_construct_loop t first n (ptr_add cur 1) w1)"

definition uninitialized_value_construct_n ::
  "'a traits \<Rightarrow> ptr \<Rightarrow> nat \<Rightarrow> 'a world \<Rightarrow> (error + unit) \<times> 'a world" where
  "uninitialized_value_construct_n t first n w = uninitialized_value_construct_loop t first n first w"

text \<open>
  \<^verbatim>\<open>std::copy(first, last, d_first)\<close> and \<^verbatim>\<open>std::move(first, last, d_first)\<close>: assignments in
  ascending order, until \<open>first\<close> reaches \<open>last\<close>. A range whose \<open>last\<close> cannot be reached
  from \<open>first\<close> is undefined.
\<close>

fun copy_loop :: "'a traits \<Rightarrow> ptr \<Rightarrow> nat \<Rightarrow> ptr \<Rightarrow> 'a world \<Rightarrow> (error + unit) \<times> 'a world" where
  "copy_loop t src 0 dst w = (Inr (), w)"
| "copy_loop t src (Suc n) dst w =
     (case assign_copy t src dst w of
        (Inl e, w1) \<Rightarrow> (Inl e, w1)
      | (Inr _, w1) \<Rightarrow> copy_loop t (ptr_add src 1) n (ptr_add dst 1) w1)"

definition std_copy :: "'a traits \<Rightarrow> ptr \<Rightarrow> ptr \<Rightarrow> ptr \<Rightarrow> 'a world \<Rightarrow> (error + unit) \<times> 'a world" where
  "std_copy t first lastp d_first w =
     (if fst first = fst lastp \<and> snd first \<le> snd lastp
      then copy_loop t first (snd lastp - snd first) d_first w
      else (Inl Undefined, w))"

fun move_loop :: "'a traits \<Rightarrow> ptr \<Rightarrow> nat \<Rightarrow> ptr \<Rightarrow> 'a world \<Rightarrow> (error + unit) \<times> 'a world" where
  "move_loop t src 0 dst w = (Inr (), w)"
| "move_loop t src (Suc n) dst w =
     (case assign_move t src dst w of
        (Inl e, w1) \<Rightarrow> (Inl e, w1)
      | (Inr _, w1) \<Rightarrow> move_loop t (ptr_add src 1) n (ptr_add dst 1) w1)"

definition std_move :: "'a traits \<Rightarrow> ptr \<Rightarrow> ptr \<Rightarrow> ptr \<Rightarrow> 'a world \<Rightarrow> (error + unit) \<times> 'a world" where
  "std_move t first lastp d_first w =
     (if fst first = fst lastp \<and> snd first \<le> snd lastp
      then move_loop t first (snd lastp - snd first) d_first w
      else (Inl Undefined, w))"

text \<open>
  \<^verbatim>\<open>std::move_backward(first, last, d_last)\<close>:
  \<^verbatim>\<open>while (first != last) *(--d_last) = std::move(*(--last));\<close>
\<close>

fun move_backward_loop :: "'a traits \<Rightarrow> nat \<Rightarrow> ptr \<Rightarrow> ptr \<Rightarrow> 'a world \<Rightarrow> (error + unit) \<times> 'a world" where
  "move_backward_loop t 0 lastp d_last w = (Inr (), w)"
| "move_backward_loop t (Suc n) lastp d_last w =
     (case assign_move t (ptr_sub lastp 1) (ptr_sub d_last 1) w of
        (Inl e, w1) \<Rightarrow> (Inl e, w1)
      | (Inr _, w1) \<Rightarrow> move_backward_loop t n (ptr_sub lastp 1) (ptr_sub d_last 1) w1)"

definition std_move_backward :: "'a traits \<Rightarrow> ptr \<Rightarrow> ptr \<Rightarrow> ptr \<Rightarrow> 'a world \<Rightarrow> (error + unit) \<times> 'a world" where
  "std_move_backward t first lastp d_last w =
     (if fst first = fst lastp \<and> snd first \<le> snd lastp
      then move_backward_loop t (snd lastp - snd first) lastp d_last w
      else (Inl Undefined, w))"

section \<open>\<^verbatim>\<open>Vector<T>\<close>\<close>

record vector =
  data :: raw_memory
  vsize :: nat

text \<open>
  A member function takes the vector \<open>this\<close> and the store, and returns its result or the
  error together with the vector and the store it leaves behind.
\<close>

definition Size :: "vector \<Rightarrow> nat" where
  "Size v = vsize v"

definition Capacity :: "vector \<Rightarrow> nat" where
  "Capacity v = Capacity_raw (data v)"

definition vbegin :: "vector \<Rightarrow> ptr" where
  "vbegin v = GetAddress (data v)"

definition vend :: "vector \<Rightarrow> ptr" where
  "vend v = ptr_add (GetAddress (data v)) (vsize v)"

text \<open>\<^verbatim>\<open>operator[]\<close>: the address of element \<open>index\<close>, behind both assertions.\<close>

definition Vector_index :: "vector \<Rightarrow> nat \<Rightarrow> error + ptr" where
  "Vector_index v index = (if index < vsize v then raw_index (data v) index else Inl AssertFailed)"

definition Vector_default :: vector where
  "Vector_default = \<lparr>data = RawMemory_default, vsize = 0\<rparr>"

text \<open>
  \<^verbatim>\<open>Vector(size_t size)\<close> and \<^verbatim>\<open>Vector(const Vector& other)\<close>. When the body of a constructor
  throws, the member \<^verbatim>\<open>data_\<close> is destroyed (and the destructor of the vector does not run).
\<close>

definition Vector_ctor_n :: "'a traits \<Rightarrow> nat \<Rightarrow> 'a world \<Rightarrow> (error + vector) \<times> 'a world" where
  "Vector_ctor_n t n w =
     (case RawMemory_ctor t n w of
        (Inl e, w1) \<Rightarrow> (Inl e, w1)
      | (Inr d, w1) \<Rightarrow>
          (case on_throw (RawMemory_dtor d) (uninitialized_value_construct_n t (GetAddress d) n w1) of
             (Inl e, w2) \<Rightarrow> (Inl e, w2)
           | (Inr _, w2) \<Rightarrow> (Inr \<lparr>data = d, vsize = n\<rparr>, w2)))"

definition Vector_copy_ctor :: "'a traits \<Rightarrow> vector \<Rightarrow> 'a world \<Rightarrow> (error + vector) \<times> 'a world" where
  "Vector_copy_ctor t other w =
     (case RawMemory_ctor t (Size other) w of
        (Inl e, w1) \<Rightarrow> (Inl e, w1)
      | (Inr d, w1) \<Rightarrow>
          (case on_throw (RawMemory_dtor d)
                  (uninitialized_copy_n t (GetAddress (data other)) (Size other) (GetAddress d) w1) of
             (Inl e, w2) \<Rightarrow> (Inl e, w2)
           | (Inr _, w2) \<Rightarrow> (Inr \<lparr>data = d, vsize = Size other\<rparr>, w2)))"

text \<open>\<^verbatim>\<open>Swap\<close>: the pair is (\<open>this\<close>, \<open>other\<close>) afterwards.\<close>

definition Vector_Swap :: "vector \<Rightarrow> vector \<Rightarrow> vector \<times> vector" where
  "Vector_Swap this other =
     (case RawMemory_Swap (data this) (data other) of
        (d1, d2) \<Rightarrow> (this\<lparr>data := d1, vsize := vsize other\<rparr>, other\<lparr>data := d2, vsize := vsize this\<rparr>))"

text \<open>\<^verbatim>\<open>Vector(Vector&& rhs)\<close>: the pair is (the new vector, \<open>rhs\<close> afterwards).\<close>

definition Vector_move_ctor :: "vector \<Rightarrow> vector \<times> vector" where
  "Vector_move_ctor rhs = Vector_Swap Vector_default rhs"

text \<open>\<^verbatim>\<open>~Vector()\<close>, followed by the destructor of the member \<^verbatim>\<open>data_\<close>.\<close>

definition Vector_dtor :: "vector \<Rightarrow> 'a world \<Rightarrow> (error + unit) \<times> 'a world" where
  "Vector_dtor v w =
     bind (destroy_n (GetAddress (data v)) (vsize v)) (\<lambda>_. RawMemory_dtor (data v)) w"

text \<open>The two private helpers that relocate elements into a new block.\<close>

definition MoveOrCopy :: "'a traits \<Rightarrow> ptr \<Rightarrow> nat \<Rightarrow> ptr \<Rightarrow> 'a world \<Rightarrow> (error + unit) \<times> 'a world" where
  "MoveOrCopy t src n dest w =
     (if nothrow_move_constructible t \<or> \<not> copy_constructible t
      then uninitialized_move_n t src n dest w
      else uninitialized_copy_n t src n dest w)"

text \<open>The result is the pair (\<open>data\<close>, \<open>buf\<close>) after the swap.\<close>

definition MoveOrCopyAndSwap ::
  "'a traits \<Rightarrow> raw_memory \<Rightarrow> nat \<Rightarrow> raw_memory \<Rightarrow> 'a world \<Rightarrow> (error + raw_memory \<times> raw_memory) \<times> 'a world" where
  "MoveOrCopyAndSwap t dat n_elems buf w =
     bind (MoveOrCopy t (GetAddress dat) n_elems (GetAddress buf))
       (\<lambda>_. bind (destroy_n (GetAddress dat) n_elems)
         (\<lambda>_ w'. (Inr (RawMemory_Swap dat buf), w'))) w"

definition Reserve :: "'a traits \<Rightarrow> nat \<Rightarrow> vector \<Rightarrow> 'a world \<Rightarrow> (error + unit) \<times> vector \<times> 'a world" where
  "Reserve t new_capacity v w =
     (if new_capacity \<le> Capacity_raw (data v) then (Inr (), v, w)
      else
        (case RawMemory_ctor t new_capacity w of
           (Inl e, w1) \<Rightarrow> (Inl e, v, w1)
         | (Inr buf, w1) \<Rightarrow>
             (case MoveOrCopyAndSwap t (data v) (vsize v) buf w1 of
                (Inl e, w2) \<Rightarrow>
                  (case at_scope_exit (RawMemory_dtor buf) (Inl e, w2) of (r, w3) \<Rightarrow> (r, v, w3))
              | (Inr (d, b), w2) \<Rightarrow>
                  (case at_scope_exit (RawMemory_dtor b) (Inr (), w2) of
                     (r, w3) \<Rightarrow> (r, v\<lparr>data := d\<rparr>, w3)))))"

definition Resize :: "'a traits \<Rightarrow> nat \<Rightarrow> vector \<Rightarrow> 'a world \<Rightarrow> (error + unit) \<times> vector \<times> 'a world" where
  "Resize t new_size v w =
     (if new_size = vsize v then (Inr (), v, w)
      else if new_size > vsize v then
        (case (if new_size > Capacity v then Reserve t new_size v w else (Inr (), v, w)) of
           (Inl e, v1, w1) \<Rightarrow> (Inl e, v1, w1)
         | (Inr _, v1, w1) \<Rightarrow>
             (case uninitialized_value_construct_n t
                     (ptr_add (GetAddress (data v1)) (vsize v1)) (new_size - vsize v1) w1 of
                (Inl e, w2) \<Rightarrow> (Inl e, v1, w2)
              | (Inr _, w2) \<Rightarrow> (Inr (), v1\<lparr>vsize := new_size\<rparr>, w2)))
      else
        (case destroy_n (ptr_add (GetAddress (data v)) new_size) (vsize v - new_size) w of
           (Inl e, w1) \<Rightarrow> (Inl e, v, w1)
         | (Inr _, w1) \<Rightarrow> (Inr (), v\<lparr>vsize := new_size\<rparr>, w1)))"

text \<open>
  The arguments \<^verbatim>\<open>EmplaceBack\<close> and \<^verbatim>\<open>Emplace\<close> forward to the constructor of \<open>T\<close>: one
  object of \<open>T\<close>, by \<^verbatim>\<open>const T&\<close> or by \<^verbatim>\<open>T&&\<close> (as \<^verbatim>\<open>PushBack\<close> and \<^verbatim>\<open>Insert\<close> pass
  them), or the arguments of another constructor of \<open>T\<close>, given by the value that
  constructor builds from them. An object referred to lives outside the store (and is
  given by its value) or in a slot of the store, possibly a slot of the vector itself.
\<close>

datatype 'a reference = Outside 'a | Inside ptr

datatype 'a args = ByConstRef "'a reference" | ByRvalue "'a reference" | FromArgs 'a

text \<open>Placement \<^verbatim>\<open>new (dst) T(std::forward<Args>(args)...)\<close>.\<close>

definition construct_from :: "'a traits \<Rightarrow> 'a args \<Rightarrow> ptr \<Rightarrow> 'a world \<Rightarrow> (error + unit) \<times> 'a world" where
  "construct_from t a dst w =
     (case a of
        ByConstRef (Inside p) \<Rightarrow> construct_copy t p dst w
      | ByRvalue (Inside p) \<Rightarrow> construct_move t p dst w
      | ByConstRef (Outside x) \<Rightarrow>
          (case slot_at w dst of
             Some _ \<Rightarrow>
               if copy_ctor_throws t x then (Inl ElemThrow, w)
               else (Inr (), log_event (CopyCtor dst) (put_slot dst (Obj x) w))
           | None \<Rightarrow> (Inl Undefined, w))
      | ByRvalue (Outside x) \<Rightarrow>
          (case slot_at w dst of
             Some _ \<Rightarrow>
               if move_ctor_throws t x then (Inl ElemThrow, w)
               else (Inr (), log_event (MoveCtor dst) (put_slot dst (Obj x) w))
           | None \<Rightarrow> (Inl Undefined, w))
      | FromArgs x \<Rightarrow>
          (case slot_at w dst of
             Some _ \<Rightarrow>
               if args_ctor_throws t x then (Inl ElemThrow, w)
               else (Inr (), log_event (ArgsCtor dst) (put_slot dst (Obj x) w))
           | None \<Rightarrow> (Inl Undefined, w)))"

text \<open>
  The new-expression \<^verbatim>\<open>new T(args)\<close>: storage for one object from the memory source, then
  the constructor; the storage is released again if the constructor throws.
\<close>

definition new_T :: "'a traits \<Rightarrow> 'a args \<Rightarrow> 'a world \<Rightarrow> (error + ptr) \<times> 'a world" where
  "new_T t a w =
     (case operator_new t (sizeof_T t) w of
        (Inl e, w1) \<Rightarrow> (Inl e, w1)
      | (Inr b, w1) \<Rightarrow>
          (case on_throw (operator_delete (Some b)) (construct_from t a (Some b, 0) w1) of
             (Inl e, w2) \<Rightarrow> (Inl e, w2)
           | (Inr _, w2) \<Rightarrow> (Inr (Some b, 0), w2)))"

definition at_address :: "error + ptr \<Rightarrow> (ptr \<Rightarrow> 's \<Rightarrow> (error + 'x) \<times> 's) \<Rightarrow> 's \<Rightarrow> (error + 'x) \<times> 's" where
  "at_address r f s = (case r of Inl e \<Rightarrow> (Inl e, s) | Inr p \<Rightarrow> f p s)"

text \<open>The last two statements of \<^verbatim>\<open>EmplaceBack\<close>: \<^verbatim>\<open>++size_; return (*this)[size_-1];\<close>\<close>

definition EmplaceBack_return :: "vector \<Rightarrow> 'a world \<Rightarrow> (error + ptr) \<times> vector \<times> 'a world" where
  "EmplaceBack_return v w =
     (case Vector_index (v\<lparr>vsize := vsize v + 1\<rparr>) (vsize v + 1 - 1) of
        Inl e \<Rightarrow> (Inl e, v\<lparr>vsize := vsize v + 1\<rparr>, w)
      | Inr p \<Rightarrow> (Inr p, v\<lparr>vsize := vsize v + 1\<rparr>, w))"

definition EmplaceBack :: "'a traits \<Rightarrow> 'a args \<Rightarrow> vector \<Rightarrow> 'a world \<Rightarrow> (error + ptr) \<times> vector \<times> 'a world" where
  "EmplaceBack t a v w =
     (if vsize v = Capacity v then
        (case RawMemory_ctor t (if vsize v = 0 then 1 else vsize v * 2) w of
           (Inl e, w1) \<Rightarrow> (Inl e, v, w1)
         | (Inr buf, w1) \<Rightarrow>
             (case bind (at_address (raw_index buf (vsize v)) (construct_from t a))
                     (\<lambda>_. MoveOrCopyAndSwap t (data v) (vsize v) buf) w1 of
                (Inl e, w2) \<Rightarrow>
                  (case at_scope_exit (RawMemory_dtor buf) (Inl e, w2) of (r, w3) \<Rightarrow> (r, v, w3))
              | (Inr (d, b), w2) \<Rightarrow>
                  (case RawMemory_dtor b w2 of
                     (Inl e, w3) \<Rightarrow> (Inl e, v\<lparr>data := d\<rparr>, w3)
                   | (Inr _, w3) \<Rightarrow> EmplaceBack_return (v\<lparr>data := d\<rparr>) w3)))
      else
        (case at_address (raw_index (data v) (vsize v)) (construct_from t a) w of
           (Inl e, w1) \<Rightarrow> (Inl e, v, w1)
         | (Inr _, w1) \<Rightarrow> EmplaceBack_return v w1))"

definition PushBack_copy :: "'a traits \<Rightarrow> 'a reference \<Rightarrow> vector \<Rightarrow> 'a world \<Rightarrow> (error + unit) \<times> vector \<times> 'a world" where
  "PushBack_copy t val v w =
     (case EmplaceBack t (ByConstRef val) v w of
        (Inl e, v1, w1) \<Rightarrow> (Inl e, v1, w1)
      | (Inr _, v1, w1) \<Rightarrow> (Inr (), v1, w1))"

definition PushBack_move :: "'a traits \<Rightarrow> 'a reference \<Rightarrow> vector \<Rightarrow> 'a world \<Rightarrow> (error + unit) \<times> vector \<times> 'a world" where
  "PushBack_move t val v w =
     (case EmplaceBack t (ByRvalue val) v w of
        (Inl e, v1, w1) \<Rightarrow> (Inl e, v1, w1)
      | (Inr _, v1, w1) \<Rightarrow> (Inr (), v1, w1))"

definition PopBack :: "vector \<Rightarrow> 'a world \<Rightarrow> (error + unit) \<times> vector \<times> 'a world" where
  "PopBack v w =
     (if vsize v > 0 then
        (case at_address (raw_index (data v) (vsize v - 1)) destroy_at w of
           (Inl e, w1) \<Rightarrow> (Inl e, v, w1)
         | (Inr _, w1) \<Rightarrow> (Inr (), v\<lparr>vsize := vsize v - 1\<rparr>, w1))
      else (Inr (), v, w))"

text \<open>
  \<^verbatim>\<open>Emplace\<close>, in its three branches. An iterator is a pointer; comparing \<open>pos\<close> with
  \<^verbatim>\<open>begin()\<close> and \<^verbatim>\<open>end()\<close> is defined only for a pointer into the block of the vector.

  The branch that grows: the new block, the new element in its final slot, the elements
  before and after it, the destructors of the old elements, the swap; the local
  \<^verbatim>\<open>buffer\<close> releases its block when the scope is left.
\<close>

definition Emplace_grow ::
  "'a traits \<Rightarrow> nat \<Rightarrow> 'a args \<Rightarrow> vector \<Rightarrow> 'a world \<Rightarrow> (error + ptr) \<times> vector \<times> 'a world" where
  "Emplace_grow t dist a v w =
     (case RawMemory_ctor t (if vsize v = 0 then 1 else vsize v * 2) w of
        (Inl e, w1) \<Rightarrow> (Inl e, v, w1)
      | (Inr buf, w1) \<Rightarrow>
          (case bind (construct_from t a (ptr_add (GetAddress buf) dist))
                  (\<lambda>_. bind (MoveOrCopy t (GetAddress (data v)) dist (GetAddress buf))
                  (\<lambda>_. bind (MoveOrCopy t (ptr_add (GetAddress (data v)) dist) (vsize v - dist)
                               (ptr_add (GetAddress buf) (dist + 1)))
                  (\<lambda>_. destroy_n (GetAddress (data v)) (vsize v)))) w1 of
             (Inl e, w2) \<Rightarrow>
               (case at_scope_exit (RawMemory_dtor buf) (Inl e, w2) of (r, w3) \<Rightarrow> (r, v, w3))
           | (Inr _, w2) \<Rightarrow>
               (case RawMemory_Swap (data v) buf of
                  (d, b) \<Rightarrow>
                    (case RawMemory_dtor b w2 of
                       (Inl e, w3) \<Rightarrow> (Inl e, v\<lparr>data := d\<rparr>, w3)
                     | (Inr _, w3) \<Rightarrow>
                         (Inr (ptr_add (GetAddress buf) dist), v\<lparr>data := d, vsize := vsize v + 1\<rparr>, w3)))))"

text \<open>
  The branch that shifts in place: the new value is built in a heap object \<^verbatim>\<open>temp\<close> (which
  the source never deletes), the last element is moved into the slot past the end, the
  elements from \<open>position\<close> on are moved one slot up, the object at \<open>position\<close> is destroyed
  and the slot is assigned from \<^verbatim>\<open>temp\<close>.
\<close>

definition Emplace_shift ::
  "'a traits \<Rightarrow> nat \<Rightarrow> 'a args \<Rightarrow> vector \<Rightarrow> 'a world \<Rightarrow> (error + unit) \<times> 'a world" where
  "Emplace_shift t dist a v w =
     bind (new_T t a)
       (\<lambda>temp. bind (at_address (raw_index (data v) (vsize v - 1)) (\<lambda>p. construct_move t p (vend v)))
       (\<lambda>_. bind (std_move_backward t (ptr_add (vbegin v) dist) (ptr_sub (vend v) 1) (vend v))
       (\<lambda>_. bind (destroy_at (ptr_add (vbegin v) dist))
       (\<lambda>_. at_address (raw_index (data v) dist) (assign_move t temp))))) w"

definition Emplace :: "'a traits \<Rightarrow> ptr \<Rightarrow> 'a args \<Rightarrow> vector \<Rightarrow> 'a world \<Rightarrow> (error + ptr) \<times> vector \<times> 'a world" where
  "Emplace t pos a v w =
     (if fst pos \<noteq> fst (vbegin v) then (Inl Undefined, v, w)
      else if \<not> (snd pos \<ge> snd (vbegin v) \<and> snd pos \<le> snd (vend v)) then (Inl AssertFailed, v, w)
      else if vsize v = Capacity v then Emplace_grow t (snd pos - snd (vbegin v)) a v w
      else if snd pos - snd (vbegin v) = vsize v then
        (case construct_from t a (ptr_add (vbegin v) (snd pos - snd (vbegin v))) w of
           (Inl e, w1) \<Rightarrow> (Inl e, v, w1)
         | (Inr _, w1) \<Rightarrow>
             (Inr (ptr_add (vbegin v) (snd pos - snd (vbegin v))), v\<lparr>vsize := vsize v + 1\<rparr>, w1))
      else
        (case Emplace_shift t (snd pos - snd (vbegin v)) a v w of
           (Inl e, w1) \<Rightarrow> (Inl e, v, w1)
         | (Inr _, w1) \<Rightarrow>
             (Inr (ptr_add (vbegin v) (snd pos - snd (vbegin v))), v\<lparr>vsize := vsize v + 1\<rparr>, w1)))"

definition Insert_copy :: "'a traits \<Rightarrow> ptr \<Rightarrow> 'a reference \<Rightarrow> vector \<Rightarrow> 'a world \<Rightarrow> (error + ptr) \<times> vector \<times> 'a world" where
  "Insert_copy t pos val v w = Emplace t pos (ByConstRef val) v w"

definition Insert_move :: "'a traits \<Rightarrow> ptr \<Rightarrow> 'a reference \<Rightarrow> vector \<Rightarrow> 'a world \<Rightarrow> (error + ptr) \<times> vector \<times> 'a world" where
  "Insert_move t pos val v w = Emplace t pos (ByRvalue val) v w"

text \<open>
  \<^verbatim>\<open>Erase\<close>. Its assertion admits \<^verbatim>\<open>pos == end()\<close>. The decrement \<^verbatim>\<open>--size_\<close> is reached only
  after the destructor call on the slot at \<open>pos\<close>, so only with at least one element.
\<close>

definition Erase :: "'a traits \<Rightarrow> ptr \<Rightarrow> vector \<Rightarrow> 'a world \<Rightarrow> (error + ptr) \<times> vector \<times> 'a world" where
  "Erase t pos v w =
     (if fst pos \<noteq> fst (vbegin v) then (Inl Undefined, v, w)
      else if \<not> (snd pos \<ge> snd (vbegin v) \<and> snd pos \<le> snd (vend v)) then (Inl AssertFailed, v, w)
      else
        (case bind (destroy_at (ptr_add (GetAddress (data v)) (snd pos - snd (GetAddress (data v)))))
                (\<lambda>_. if nothrow_move_constructible t \<or> \<not> copy_constructible t
                      then std_move t
                             (ptr_add (ptr_add (GetAddress (data v)) (snd pos - snd (GetAddress (data v)))) 1)
                             (vend v)
                             (ptr_add (GetAddress (data v)) (snd pos - snd (GetAddress (data v))))
                      else std_copy t
                             (ptr_add (ptr_add (GetAddress (data v)) (snd pos - snd (GetAddress (data v)))) 1)
                             (vend v)
                             (ptr_add (GetAddress (data v)) (snd pos - snd (GetAddress (data v))))) w of
           (Inl e, w1) \<Rightarrow> (Inl e, v, w1)
         | (Inr _, w1) \<Rightarrow>
             (Inr (ptr_add (GetAddress (data v)) (snd pos - snd (GetAddress (data v)))),
              v\<lparr>vsize := vsize v - 1\<rparr>, w1)))"

text \<open>
  \<^verbatim>\<open>CopyToFilledVector(lhs, rhs)\<close>, called with \<open>lhs\<close> the vector assigned to. \<open>rhs\<close> is only
  read.
\<close>

definition CopyToFilledVector ::
  "'a traits \<Rightarrow> vector \<Rightarrow> vector \<Rightarrow> 'a world \<Rightarrow> (error + unit) \<times> vector \<times> 'a world" where
  "CopyToFilledVector t lhs rhs w =
     (case bind (std_copy t (vbegin rhs) (vend rhs) (vbegin lhs))
             (\<lambda>_. bind (if min (vsize lhs) (Size rhs) = vsize lhs
                         then uninitialized_copy_n t
                                (ptr_add (GetAddress (data rhs)) (vsize lhs))
                                (Size rhs - vsize lhs)
                                (ptr_add (GetAddress (data lhs)) (vsize lhs))
                         else (\<lambda>w'. (Inr (), w')))
             (\<lambda>_. if min (vsize lhs) (Size rhs) = Size rhs \<and> Size rhs \<noteq> vsize lhs
                   then destroy_n (ptr_add (GetAddress (data lhs)) (Size rhs)) (vsize lhs - Size rhs)
                   else (\<lambda>w'. (Inr (), w')))) w of
        (Inl e, w1) \<Rightarrow> (Inl e, lhs, w1)
      | (Inr _, w1) \<Rightarrow> (Inr (), lhs\<lparr>vsize := Size rhs\<rparr>, w1))"

text \<open>
  The two assignment operators compare the addresses of \<open>this\<close> and of the argument, so
  the vectors live in a store of their own, indexed by address. The temporary of copy
  assignment is destroyed at the end of its block.
\<close>

definition copy_assign ::
  "'a traits \<Rightarrow> nat \<Rightarrow> nat \<Rightarrow> (nat \<Rightarrow> vector) \<Rightarrow> 'a world \<Rightarrow> (error + unit) \<times> (nat \<Rightarrow> vector) \<times> 'a world" where
  "copy_assign t this rhs vs w =
     (if this \<noteq> rhs then
        (if vsize (vs rhs) > Capacity_raw (data (vs this)) then
           (case Vector_copy_ctor t (vs rhs) w of
              (Inl e, w1) \<Rightarrow> (Inl e, vs, w1)
            | (Inr temp, w1) \<Rightarrow>
                (case Vector_Swap (vs this) temp of
                   (a, temp') \<Rightarrow>
                     (case Vector_dtor temp' w1 of (r, w2) \<Rightarrow> (r, vs(this := a), w2))))
         else
           (case CopyToFilledVector t (vs this) (vs rhs) w of
              (r, lhs, w1) \<Rightarrow> (r, vs(this := lhs), w1)))
      else (Inr (), vs, w))"

definition move_assign :: "nat \<Rightarrow> nat \<Rightarrow> (nat \<Rightarrow> vector) \<Rightarrow> (nat \<Rightarrow> vector)" where
  "move_assign this other vs =
     (if this \<noteq> other
      then (case Vector_Swap (vs this) (vs other) of (a, b) \<Rightarrow> vs(this := a, other := b))
      else vs)"

section \<open>What a caller observes\<close>

text \<open>
  The value of the object in a slot (if there is one), the elements of a vector in order,
  and the events a run has added to the log.
\<close>

definition value_at :: "'a world \<Rightarrow> ptr \<Rightarrow> 'a option" where
  "value_at w p = (case slot_at w p of Some (Obj x) \<Rightarrow> Some x | _ \<Rightarrow> None)"

definition elements :: "vector \<Rightarrow> 'a world \<Rightarrow> 'a option list" where
  "elements v w = map (\<lambda>k. value_at w (buffer (data v), k)) [0..<vsize v]"

definition new_events :: "'a world \<Rightarrow> 'a world \<Rightarrow> event list" where
  "new_events w w' = drop (length (trace w)) (trace w')"

fun is_copy_ctor :: "event \<Rightarrow> bool" where
  "is_copy_ctor (CopyCtor p) = True"
| "is_copy_ctor e = False"

fun is_move_ctor :: "event \<Rightarrow> bool" where
  "is_move_ctor (MoveCtor p) = True"
| "is_move_ctor e = False"

fun is_copy_assign :: "event \<Rightarrow> bool" where
  "is_copy_assign (CopyAssign p) = True"
| "is_copy_assign e = False"

fun is_move_assign :: "event \<Rightarrow> bool" where
  "is_move_assign (MoveAssign p) = True"
| "is_move_assign e = False"

text \<open>
  The value the forwarded arguments denote when the constructor reads them, the slot a
  move from them changes, and the event the construction logs.
\<close>

fun referent :: "'a world \<Rightarrow> 'a args \<Rightarrow> 'a option" where
  "referent w (ByConstRef (Outside x)) = Some x"
| "referent w (ByConstRef (Inside p)) = value_at w p"
| "referent w (ByRvalue (Outside x)) = Some x"
| "referent w (ByRvalue (Inside p)) = value_at w p"
| "referent w (FromArgs x) = Some x"

fun moved_slot :: "'a args \<Rightarrow> ptr option" where
  "moved_slot (ByRvalue (Inside p)) = Some p"
| "moved_slot a = None"

fun ctor_event :: "'a args \<Rightarrow> ptr \<Rightarrow> event" where
  "ctor_event (ByConstRef r) dst = CopyCtor dst"
| "ctor_event (ByRvalue r) dst = MoveCtor dst"
| "ctor_event (FromArgs x) dst = ArgsCtor dst"

fun is_value_ctor :: "event \<Rightarrow> bool" where
  "is_value_ctor (ValueCtor p) = True"
| "is_value_ctor e = False"

fun is_dtor :: "event \<Rightarrow> bool" where
  "is_dtor (Dtor p) = True"
| "is_dtor e = False"

text \<open>A run from \<open>w\<close> to \<open>w'\<close> that only adds events of one kind to the log.\<close>

definition logs_only :: "(event \<Rightarrow> bool) \<Rightarrow> 'a world \<Rightarrow> 'a world \<Rightarrow> bool" where
  "logs_only P w w' \<longleftrightarrow> (\<exists>evs. trace w' = trace w @ evs \<and> list_all P evs)"

text \<open>
  The relocation policy: the condition of the two \<^verbatim>\<open>if constexpr\<close>, the constructor and the
  assignment it selects, and the events it rules out.
\<close>

definition relocates_by_move :: "'a traits \<Rightarrow> bool" where
  "relocates_by_move t \<longleftrightarrow> nothrow_move_constructible t \<or> \<not> copy_constructible t"

definition policy_ctor :: "'a traits \<Rightarrow> ptr \<Rightarrow> event" where
  "policy_ctor t p = (if relocates_by_move t then MoveCtor p else CopyCtor p)"

definition policy_assign :: "'a traits \<Rightarrow> ptr \<Rightarrow> event" where
  "policy_assign t p = (if relocates_by_move t then MoveAssign p else CopyAssign p)"

definition against_policy :: "'a traits \<Rightarrow> event \<Rightarrow> bool" where
  "against_policy t e =
     (if relocates_by_move t then is_copy_ctor e \<or> is_copy_assign e
      else is_move_ctor e \<or> is_move_assign e)"

text \<open>
  The number of slots in the block \<^verbatim>\<open>Allocate(n)\<close> obtains, the condition under which the
  byte count \<^verbatim>\<open>n * sizeof(T)\<close> does not wrap (the block then has \<open>n\<close> slots), and a vector
  whose element type and whose block are objects of the language: at least one byte, at
  most \<^verbatim>\<open>PTRDIFF_MAX\<close> bytes. Every block the memory source of a 64-bit machine hands out
  is such an object, so that for the vector that owns it the doubled length is a number
  of slots whose byte count does not wrap.
\<close>

definition block_slots :: "'a traits \<Rightarrow> nat \<Rightarrow> nat" where
  "block_slots t n = ((n * sizeof_T t) mod 2 ^ 64) div sizeof_T t"

definition allocatable :: "'a traits \<Rightarrow> nat \<Rightarrow> bool" where
  "allocatable t n \<longleftrightarrow> 0 < sizeof_T t \<and> n * sizeof_T t < 2 ^ 64"

definition object_sized :: "'a traits \<Rightarrow> vector \<Rightarrow> bool" where
  "object_sized t v \<longleftrightarrow> 0 < sizeof_T t \<and> max 1 (capacity (data v)) * sizeof_T t < 2 ^ 63"

text \<open>An element type none of whose operations throws.\<close>

definition never_throws :: "'a traits \<Rightarrow> bool" where
  "never_throws t \<longleftrightarrow>
     \<not> default_ctor_throws t
   \<and> (\<forall>x. \<not> args_ctor_throws t x \<and> \<not> copy_ctor_throws t x \<and> \<not> move_ctor_throws t x
          \<and> \<not> copy_assign_throws t x \<and> \<not> move_assign_throws t x)"

text \<open>The state a moved-from object is left in.\<close>

fun husk :: "'a traits \<Rightarrow> 'a slot \<Rightarrow> 'a slot" where
  "husk t Raw = Raw"
| "husk t (Obj x) = Obj (moved_from t x)"

text \<open>
  A vector is well formed in a store when its length does not exceed its capacity, its
  block (if any) was handed out by the memory source and has exactly \<open>capacity\<close> slots,
  a vector without a block has capacity 0, and the slots below its length hold objects.
\<close>

definition well_formed :: "vector \<Rightarrow> 'a world \<Rightarrow> bool" where
  "well_formed v w \<longleftrightarrow>
     vsize v \<le> capacity (data v)
   \<and> (case buffer (data v) of
        None \<Rightarrow> capacity (data v) = 0
      | Some b \<Rightarrow> b < fresh w \<and> map_option length (heap w b) = Some (capacity (data v)))
   \<and> None \<notin> set (elements v w)"

text \<open>The invariant of the data model: beyond that, the slots from the length on are raw storage.\<close>

definition raw_tail :: "vector \<Rightarrow> 'a world \<Rightarrow> bool" where
  "raw_tail v w = list_all (\<lambda>k. slot_at w (buffer (data v), k) = Some Raw) [vsize v..<capacity (data v)]"


definition rolled_back :: "nat option \<Rightarrow> event list \<Rightarrow> bool" where
  "rolled_back b evs =
     (let k = length (filter is_copy_ctor evs)
      in evs = map (\<lambda>i. CopyCtor (b, i)) [0..<k] @ map (\<lambda>i. Dtor (b, i)) [0..<k])"

section \<open>Element types and states used as examples\<close>

text \<open>
  An element type like \<^verbatim>\<open>int\<close>, of four bytes: nothing throws, a move leaves the value in
  place, and an assignment to storage without an object stores the value.
\<close>

definition int_traits :: "int traits" where
  "int_traits = \<lparr>sizeof_T = 4, nothrow_move_constructible = True, copy_constructible = True,
     default_value = 0, default_ctor_throws = False, args_ctor_throws = (\<lambda>_. False),
     copy_ctor_throws = (\<lambda>_. False), move_ctor_throws = (\<lambda>_. False),
     copy_assign_throws = (\<lambda>_. False), move_assign_throws = (\<lambda>_. False),
     moved_from = (\<lambda>x. x), assign_to_raw_stores = True\<rparr>"

text \<open>
  A copyable element type whose move constructor is not \<^verbatim>\<open>noexcept\<close> (so relocation
  copies) and whose copy constructor throws when it copies the value 2.
\<close>

definition fragile_traits :: "int traits" where
  "fragile_traits = \<lparr>sizeof_T = 4, nothrow_move_constructible = False, copy_constructible = True,
     default_value = 0, default_ctor_throws = False, args_ctor_throws = (\<lambda>_. False),
     copy_ctor_throws = (\<lambda>x. x = 2), move_ctor_throws = (\<lambda>_. False),
     copy_assign_throws = (\<lambda>_. False), move_assign_throws = (\<lambda>_. False),
     moved_from = (\<lambda>x. x), assign_to_raw_stores = False\<rparr>"

text \<open>
  An element type that cannot be copied (so relocation moves) although its move
  constructor is not \<^verbatim>\<open>noexcept\<close>: it throws when it moves the value 2. A value-initialised
  object holds 2 and a moved-from object holds 0.
\<close>

definition move_only_traits :: "int traits" where
  "move_only_traits = \<lparr>sizeof_T = 4, nothrow_move_constructible = False, copy_constructible = False,
     default_value = 2, default_ctor_throws = False, args_ctor_throws = (\<lambda>_. False),
     copy_ctor_throws = (\<lambda>_. False), move_ctor_throws = (\<lambda>x. x = 2),
     copy_assign_throws = (\<lambda>_. False), move_assign_throws = (\<lambda>_. False),
     moved_from = (\<lambda>_. 0), assign_to_raw_stores = False\<rparr>"

text \<open>The store before anything was allocated, with room for 64 slots.\<close>

definition empty_world :: "int world" where
  "empty_world = \<lparr>heap = (\<lambda>_. None), fresh = 0, avail = 64, trace = [], lost = 0\<rparr>"

text \<open>
  The vector \<open>{1, 2, 3}\<close> with capacity 4 in block 2, as three calls of \<^verbatim>\<open>PushBack\<close> on an
  empty vector leave it (blocks 0 and 1 were released on the way), with an empty log.
\<close>

definition v123 :: vector where
  "v123 = \<lparr>data = \<lparr>buffer = Some 2, capacity = 4\<rparr>, vsize = 3\<rparr>"

definition w123 :: "int world" where
  "w123 = \<lparr>heap = (\<lambda>_. None)(2 \<mapsto> [Obj 1, Obj 2, Obj 3, Raw]),
            fresh = 3, avail = 60, trace = [], lost = 0\<rparr>"

text \<open>The vector \<open>{1, 2, 3, 4}\<close> at full capacity 4 in block 2.\<close>

definition v1234 :: vector where
  "v1234 = \<lparr>data = \<lparr>buffer = Some 2, capacity = 4\<rparr>, vsize = 4\<rparr>"

definition w1234 :: "int world" where
  "w1234 = \<lparr>heap = (\<lambda>_. None)(2 \<mapsto> [Obj 1, Obj 2, Obj 3, Obj 4]),
             fresh = 3, avail = 60, trace = [], lost = 0\<rparr>"

text \<open>
  Two vectors at addresses 0 and 1: \<open>{1, 2, 3}\<close> with capacity 4 in block 2, and a vector of
  one element with capacity 1 in block 5.
\<close>

definition two_vectors :: "nat \<Rightarrow> vector" where
  "two_vectors = (\<lambda>_. Vector_default)
     (0 := v123, 1 := \<lparr>data = \<lparr>buffer = Some 5, capacity = 1\<rparr>, vsize = 1\<rparr>)"

text \<open>
  The vector \<open>{1, 2}\<close> at full capacity 2 in block 1, as two calls of \<^verbatim>\<open>PushBack(T&&)\<close> on an
  empty vector leave it.
\<close>

definition v12 :: vector where
  "v12 = \<lparr>data = \<lparr>buffer = Some 1, capacity = 2\<rparr>, vsize = 2\<rparr>"

definition w12 :: "int world" where
  "w12 = \<lparr>heap = (\<lambda>_. None)(1 \<mapsto> [Obj 1, Obj 2]), fresh = 2, avail = 62, trace = [], lost = 0\<rparr>"

text \<open>
  Two vectors at addresses 0 and 1 in one store: \<open>{7, 8, 9}\<close> with capacity 4 in block 2,
  and \<open>{1}\<close> with capacity 4 in block 3.
\<close>

definition source_and_target :: "nat \<Rightarrow> vector" where
  "source_and_target = (\<lambda>_. Vector_default)
     (0 := \<lparr>data = \<lparr>buffer = Some 2, capacity = 4\<rparr>, vsize = 3\<rparr>,
      1 := \<lparr>data = \<lparr>buffer = Some 3, capacity = 4\<rparr>, vsize = 1\<rparr>)"

definition w789 :: "int world" where
  "w789 = \<lparr>heap = (\<lambda>_. None)(2 \<mapsto> [Obj 7, Obj 8, Obj 9, Raw], 3 \<mapsto> [Obj 1, Raw, Raw, Raw]),
            fresh = 4, avail = 56, trace = [], lost = 0\<rparr>"

text \<open>Two raw-memory objects at addresses 0 and 1: blocks 7 and 8, capacities 2 and 5.\<close>

definition two_raws :: "nat \<Rightarrow> raw_memory" where
  "two_raws = (\<lambda>_. \<lparr>buffer = None, capacity = 0\<rparr>)
     (0 := \<lparr>buffer = Some 7, capacity = 2\<rparr>, 1 := \<lparr>buffer = Some 8, capacity = 5\<rparr>)"

section \<open>Reasoning about the store\<close>

text \<open>
  The lemmas of this section describe a successful run of each primitive and of each loop
  by the slots it leaves behind, read through \<open>slot_at\<close>, and by the events it logs.
\<close>

lemma slot_at_put_slot [simp]:
  "slot_at (put_slot q s w) p = (if p = q then map_option (\<lambda>_. s) (slot_at w q) else slot_at w p)"
  by (cases p; cases q)
     (auto simp: slot_at_def put_slot_def split: option.splits)

lemma slot_at_log_event [simp]: "slot_at (log_event e w) p = slot_at w p"
  by (simp add: slot_at_def log_event_def split: option.splits)

lemma trace_put_slot [simp]: "trace (put_slot q s w) = trace w"
  by (simp add: put_slot_def split: option.splits)

lemma fresh_put_slot [simp]: "fresh (put_slot q s w) = fresh w"
  by (simp add: put_slot_def split: option.splits)

lemma avail_put_slot [simp]: "avail (put_slot q s w) = avail w"
  by (simp add: put_slot_def split: option.splits)

lemma lost_put_slot [simp]: "lost (put_slot q s w) = lost w"
  by (simp add: put_slot_def split: option.splits)

lemma log_event_fields [simp]:
  "trace (log_event e w) = trace w @ [e]"
  "fresh (log_event e w) = fresh w"
  "avail (log_event e w) = avail w"
  "lost (log_event e w) = lost w"
  by (simp_all add: log_event_def)

lemma construct_copy_InrE:
  assumes "construct_copy t src dst w = (Inr u, w')"
  obtains x where "slot_at w src = Some (Obj x)" "slot_at w dst \<noteq> None"
    "w' = log_event (CopyCtor dst) (put_slot dst (Obj x) w)"
  using assms
  by (auto simp: construct_copy_def split: option.splits slot.splits if_splits)

lemma construct_move_InrE:
  assumes "construct_move t src dst w = (Inr u, w')"
  obtains x where "slot_at w src = Some (Obj x)" "slot_at w dst \<noteq> None"
    "w' = log_event (MoveCtor dst) (put_slot dst (Obj x) (put_slot src (Obj (moved_from t x)) w))"
  using assms
  by (auto simp: construct_move_def split: option.splits slot.splits if_splits)

lemma construct_value_InrE:
  assumes "construct_value t dst w = (Inr u, w')"
  obtains "slot_at w dst \<noteq> None"
    "w' = log_event (ValueCtor dst) (put_slot dst (Obj (default_value t)) w)"
  using assms
  by (auto simp: construct_value_def split: option.splits slot.splits if_splits)

lemma destroy_at_InrE:
  assumes "destroy_at p w = (Inr u, w')"
  obtains x where "slot_at w p = Some (Obj x)" "w' = log_event (Dtor p) (put_slot p Raw w)"
  using assms
  by (auto simp: destroy_at_def split: option.splits slot.splits if_splits)

lemma assign_copy_InrE:
  assumes "assign_copy t src dst w = (Inr u, w')"
  obtains x where "slot_at w src = Some (Obj x)" "slot_at w dst \<noteq> None"
    "w' = log_event (CopyAssign dst) (put_slot dst (Obj x) w)"
  using assms
  by (auto simp: assign_copy_def split: option.splits slot.splits if_splits)

lemma assign_move_InrE:
  assumes "assign_move t src dst w = (Inr u, w')"
  obtains x where "slot_at w src = Some (Obj x)" "slot_at w dst \<noteq> None"
    "w' = log_event (MoveAssign dst) (put_slot dst (Obj x) (put_slot src (Obj (moved_from t x)) w))"
  using assms
  by (auto simp: assign_move_def split: option.splits slot.splits if_splits)

lemma upt_map_Suc_shift:
  "map f [0..<Suc n] = f 0 # map (\<lambda>k. f (Suc k)) [0..<n]"
  by (simp add: upt_rec[of 0] map_Suc_upt[symmetric] del: upt_Suc)

lemma ptr_add_pair [simp]: "ptr_add (b, i) k = (b, i + k)"
  by (simp add: ptr_add_def)

lemma ptr_sub_pair [simp]: "ptr_sub (b, i) k = (b, i - k)"
  by (simp add: ptr_sub_def)

lemma uninitialized_copy_loop_Inr:
  "uninitialized_copy_loop t d0 (sb, si) n (cb, ci) w = (Inr u, w') \<Longrightarrow> sb \<noteq> cb \<Longrightarrow>
     (\<forall>k<n. slot_at w' (cb, ci + k) = slot_at w (sb, si + k))
   \<and> (\<forall>qb qi. \<not> (qb = cb \<and> ci \<le> qi \<and> qi < ci + n) \<longrightarrow> slot_at w' (qb, qi) = slot_at w (qb, qi))
   \<and> (\<forall>k<n. \<exists>x. slot_at w (sb, si + k) = Some (Obj x))
   \<and> trace w' = trace w @ map (\<lambda>k. CopyCtor (cb, ci + k)) [0..<n]
   \<and> fresh w' = fresh w \<and> avail w' = avail w \<and> lost w' = lost w"
proof (induction n arbitrary: si ci w)
  case 0
  then show ?case by auto
next
  case (Suc n)
  from Suc.prems(1) obtain w1 where s1: "construct_copy t (sb, si) (cb, ci) w = (Inr (), w1)"
    and s2: "uninitialized_copy_loop t d0 (sb, Suc si) n (cb, Suc ci) w1 = (Inr u, w')"
    by (auto simp: on_throw_def split: prod.splits sum.splits if_splits)
  from s1 obtain x where x: "slot_at w (sb, si) = Some (Obj x)"
    and d: "slot_at w (cb, ci) \<noteq> None"
    and w1: "w1 = log_event (CopyCtor (cb, ci)) (put_slot (cb, ci) (Obj x) w)"
    by (rule construct_copy_InrE)
  have w1s: "slot_at w1 (qb, qi) = (if (qb, qi) = (cb, ci) then Some (Obj x) else slot_at w (qb, qi))" for qb qi
    using d unfolding w1 by auto
  note IH = Suc.IH[OF s2 Suc.prems(2)]
  from IH have A: "\<And>k. k < n \<Longrightarrow> slot_at w' (cb, Suc ci + k) = slot_at w1 (sb, Suc si + k)"
    and B: "\<And>qb qi. \<not> (qb = cb \<and> Suc ci \<le> qi \<and> qi < Suc ci + n) \<Longrightarrow> slot_at w' (qb, qi) = slot_at w1 (qb, qi)"
    and C: "\<And>k. k < n \<Longrightarrow> \<exists>x. slot_at w1 (sb, Suc si + k) = Some (Obj x)"
    and T: "trace w' = trace w1 @ map (\<lambda>k. CopyCtor (cb, Suc ci + k)) [0..<n]"
    and F: "fresh w' = fresh w1" "avail w' = avail w1" "lost w' = lost w1"
    by blast+
  have A': "slot_at w' (cb, ci + k) = slot_at w (sb, si + k)" if "k < Suc n" for k
  proof (cases k)
    case 0
    then show ?thesis using B[of cb ci] w1s x by simp
  next
    case (Suc j)
    then show ?thesis using A[of j] that w1s Suc.prems(2) by simp
  qed
  have B': "slot_at w' (qb, qi) = slot_at w (qb, qi)" if "\<not> (qb = cb \<and> ci \<le> qi \<and> qi < ci + Suc n)" for qb qi
    using B[of qb qi] that w1s by auto
  have C': "\<exists>x. slot_at w (sb, si + k) = Some (Obj x)" if "k < Suc n" for k
  proof (cases k)
    case 0
    then show ?thesis using x by simp
  next
    case (Suc j)
    then show ?thesis using C[of j] that w1s Suc.prems(2) by simp
  qed
  have T': "trace w' = trace w @ map (\<lambda>k. CopyCtor (cb, ci + k)) [0..<Suc n]"
    using T unfolding w1 by (simp add: upt_map_Suc_shift del: upt_Suc)
  show ?case using A' B' C' T' F unfolding w1 by simp
qed

lemma destroy_n_Inr:
  "destroy_n (b, i) n w = (Inr u, w') \<Longrightarrow>
     (\<forall>k<n. slot_at w' (b, i + k) = Some Raw)
   \<and> (\<forall>qb qi. \<not> (qb = b \<and> i \<le> qi \<and> qi < i + n) \<longrightarrow> slot_at w' (qb, qi) = slot_at w (qb, qi))
   \<and> (\<forall>k<n. \<exists>x. slot_at w (b, i + k) = Some (Obj x))
   \<and> trace w' = trace w @ map (\<lambda>k. Dtor (b, i + k)) [0..<n]
   \<and> fresh w' = fresh w \<and> avail w' = avail w \<and> lost w' = lost w"
proof (induction n arbitrary: i w)
  case 0
  then show ?case by auto
next
  case (Suc n)
  from Suc.prems obtain w1 where s1: "destroy_at (b, i) w = (Inr (), w1)"
    and s2: "destroy_n (b, Suc i) n w1 = (Inr u, w')"
    by (auto split: prod.splits sum.splits)
  from s1 obtain x where x: "slot_at w (b, i) = Some (Obj x)"
    and w1: "w1 = log_event (Dtor (b, i)) (put_slot (b, i) Raw w)"
    by (rule destroy_at_InrE)
  have w1s: "slot_at w1 (qb, qi) = (if (qb, qi) = (b, i) then Some Raw else slot_at w (qb, qi))" for qb qi
    using x unfolding w1 by auto
  note IH = Suc.IH[OF s2]
  from IH have A: "\<And>k. k < n \<Longrightarrow> slot_at w' (b, Suc i + k) = Some Raw"
    and B: "\<And>qb qi. \<not> (qb = b \<and> Suc i \<le> qi \<and> qi < Suc i + n) \<Longrightarrow> slot_at w' (qb, qi) = slot_at w1 (qb, qi)"
    and C: "\<And>k. k < n \<Longrightarrow> \<exists>x. slot_at w1 (b, Suc i + k) = Some (Obj x)"
    and T: "trace w' = trace w1 @ map (\<lambda>k. Dtor (b, Suc i + k)) [0..<n]"
    and F: "fresh w' = fresh w1" "avail w' = avail w1" "lost w' = lost w1"
    by blast+
  have A': "slot_at w' (b, i + k) = Some Raw" if "k < Suc n" for k
  proof (cases k)
    case 0
    then show ?thesis using B[of b i] w1s by simp
  next
    case (Suc j)
    then show ?thesis using A[of j] that by simp
  qed
  have B': "slot_at w' (qb, qi) = slot_at w (qb, qi)" if "\<not> (qb = b \<and> i \<le> qi \<and> qi < i + Suc n)" for qb qi
    using B[of qb qi] that w1s by auto
  have C': "\<exists>x. slot_at w (b, i + k) = Some (Obj x)" if "k < Suc n" for k
  proof (cases k)
    case 0
    then show ?thesis using x by simp
  next
    case (Suc j)
    then show ?thesis using C[of j] that w1s by simp
  qed
  have T': "trace w' = trace w @ map (\<lambda>k. Dtor (b, i + k)) [0..<Suc n]"
    using T unfolding w1 by (simp add: upt_map_Suc_shift del: upt_Suc)
  show ?case using A' B' C' T' F unfolding w1 by simp
qed

lemma uninitialized_value_construct_loop_Inr:
  "uninitialized_value_construct_loop t d0 n (b, i) w = (Inr u, w') \<Longrightarrow>
     (\<forall>k<n. slot_at w' (b, i + k) = Some (Obj (default_value t)))
   \<and> (\<forall>qb qi. \<not> (qb = b \<and> i \<le> qi \<and> qi < i + n) \<longrightarrow> slot_at w' (qb, qi) = slot_at w (qb, qi))
   \<and> trace w' = trace w @ map (\<lambda>k. ValueCtor (b, i + k)) [0..<n]
   \<and> fresh w' = fresh w \<and> avail w' = avail w \<and> lost w' = lost w"
proof (induction n arbitrary: i w)
  case 0
  then show ?case by auto
next
  case (Suc n)
  from Suc.prems obtain w1 where s1: "construct_value t (b, i) w = (Inr (), w1)"
    and s2: "uninitialized_value_construct_loop t d0 n (b, Suc i) w1 = (Inr u, w')"
    by (auto simp: on_throw_def split: prod.splits sum.splits if_splits)
  from s1 have d: "slot_at w (b, i) \<noteq> None"
    and w1: "w1 = log_event (ValueCtor (b, i)) (put_slot (b, i) (Obj (default_value t)) w)"
    by (auto elim: construct_value_InrE)
  have w1s: "slot_at w1 (qb, qi) = (if (qb, qi) = (b, i) then Some (Obj (default_value t)) else slot_at w (qb, qi))" for qb qi
    using d unfolding w1 by auto
  note IH = Suc.IH[OF s2]
  from IH have A: "\<And>k. k < n \<Longrightarrow> slot_at w' (b, Suc i + k) = Some (Obj (default_value t))"
    and B: "\<And>qb qi. \<not> (qb = b \<and> Suc i \<le> qi \<and> qi < Suc i + n) \<Longrightarrow> slot_at w' (qb, qi) = slot_at w1 (qb, qi)"
    and T: "trace w' = trace w1 @ map (\<lambda>k. ValueCtor (b, Suc i + k)) [0..<n]"
    and F: "fresh w' = fresh w1" "avail w' = avail w1" "lost w' = lost w1"
    by blast+
  have A': "slot_at w' (b, i + k) = Some (Obj (default_value t))" if "k < Suc n" for k
  proof (cases k)
    case 0
    then show ?thesis using B[of b i] w1s by simp
  next
    case (Suc j)
    then show ?thesis using A[of j] that by simp
  qed
  have B': "slot_at w' (qb, qi) = slot_at w (qb, qi)" if "\<not> (qb = b \<and> i \<le> qi \<and> qi < i + Suc n)" for qb qi
    using B[of qb qi] that w1s by auto
  have T': "trace w' = trace w @ map (\<lambda>k. ValueCtor (b, i + k)) [0..<Suc n]"
    using T unfolding w1 by (simp add: upt_map_Suc_shift del: upt_Suc)
  show ?case using A' B' T' F unfolding w1 by simp
qed

lemma uninitialized_move_loop_Inr:
  "uninitialized_move_loop t d0 (sb, si) n (cb, ci) w = (Inr u, w') \<Longrightarrow> sb \<noteq> cb \<Longrightarrow>
     (\<forall>k<n. slot_at w' (cb, ci + k) = slot_at w (sb, si + k))
   \<and> (\<forall>k<n. slot_at w' (sb, si + k) = map_option (husk t) (slot_at w (sb, si + k)))
   \<and> (\<forall>qb qi. \<not> (qb = cb \<and> ci \<le> qi \<and> qi < ci + n) \<and> \<not> (qb = sb \<and> si \<le> qi \<and> qi < si + n)
         \<longrightarrow> slot_at w' (qb, qi) = slot_at w (qb, qi))
   \<and> (\<forall>k<n. \<exists>x. slot_at w (sb, si + k) = Some (Obj x))
   \<and> trace w' = trace w @ map (\<lambda>k. MoveCtor (cb, ci + k)) [0..<n]
   \<and> fresh w' = fresh w \<and> avail w' = avail w \<and> lost w' = lost w"
proof (induction n arbitrary: si ci w)
  case 0
  then show ?case by auto
next
  case (Suc n)
  from Suc.prems(1) obtain w1 where s1: "construct_move t (sb, si) (cb, ci) w = (Inr (), w1)"
    and s2: "uninitialized_move_loop t d0 (sb, Suc si) n (cb, Suc ci) w1 = (Inr u, w')"
    by (auto simp: on_throw_def split: prod.splits sum.splits if_splits)
  from s1 obtain x where x: "slot_at w (sb, si) = Some (Obj x)"
    and d: "slot_at w (cb, ci) \<noteq> None"
    and w1: "w1 = log_event (MoveCtor (cb, ci))
                    (put_slot (cb, ci) (Obj x) (put_slot (sb, si) (Obj (moved_from t x)) w))"
    by (rule construct_move_InrE)
  have w1s: "slot_at w1 (qb, qi) =
      (if (qb, qi) = (cb, ci) then Some (Obj x)
       else if (qb, qi) = (sb, si) then Some (Obj (moved_from t x)) else slot_at w (qb, qi))" for qb qi
    using d x Suc.prems(2) unfolding w1 by auto
  note IH = Suc.IH[OF s2 Suc.prems(2)]
  from IH have A: "\<And>k. k < n \<Longrightarrow> slot_at w' (cb, Suc ci + k) = slot_at w1 (sb, Suc si + k)"
    and A2: "\<And>k. k < n \<Longrightarrow> slot_at w' (sb, Suc si + k) = map_option (husk t) (slot_at w1 (sb, Suc si + k))"
    and B: "\<And>qb qi. \<not> (qb = cb \<and> Suc ci \<le> qi \<and> qi < Suc ci + n) \<and> \<not> (qb = sb \<and> Suc si \<le> qi \<and> qi < Suc si + n)
               \<Longrightarrow> slot_at w' (qb, qi) = slot_at w1 (qb, qi)"
    and C: "\<And>k. k < n \<Longrightarrow> \<exists>x. slot_at w1 (sb, Suc si + k) = Some (Obj x)"
    and T: "trace w' = trace w1 @ map (\<lambda>k. MoveCtor (cb, Suc ci + k)) [0..<n]"
    and F: "fresh w' = fresh w1" "avail w' = avail w1" "lost w' = lost w1"
    by blast+
  have A': "slot_at w' (cb, ci + k) = slot_at w (sb, si + k)" if "k < Suc n" for k
  proof (cases k)
    case 0
    then show ?thesis using B[of cb ci] w1s x Suc.prems(2) by simp
  next
    case (Suc j)
    then show ?thesis using A[of j] that w1s Suc.prems(2) by simp
  qed
  have A2': "slot_at w' (sb, si + k) = map_option (husk t) (slot_at w (sb, si + k))" if "k < Suc n" for k
  proof (cases k)
    case 0
    then show ?thesis using B[of sb si] w1s x Suc.prems(2) by simp
  next
    case (Suc j)
    then show ?thesis using A2[of j] that w1s Suc.prems(2) by simp
  qed
  have B': "slot_at w' (qb, qi) = slot_at w (qb, qi)"
    if "\<not> (qb = cb \<and> ci \<le> qi \<and> qi < ci + Suc n) \<and> \<not> (qb = sb \<and> si \<le> qi \<and> qi < si + Suc n)" for qb qi
    using B[of qb qi] that w1s by auto
  have C': "\<exists>x. slot_at w (sb, si + k) = Some (Obj x)" if "k < Suc n" for k
  proof (cases k)
    case 0
    then show ?thesis using x by simp
  next
    case (Suc j)
    then show ?thesis using C[of j] that w1s Suc.prems(2) by simp
  qed
  have T': "trace w' = trace w @ map (\<lambda>k. MoveCtor (cb, ci + k)) [0..<Suc n]"
    using T unfolding w1 by (simp add: upt_map_Suc_shift del: upt_Suc)
  show ?case using A' A2' B' C' T' F unfolding w1 by simp
qed

lemma copy_loop_Inr:
  "copy_loop t (sb, si) n (cb, ci) w = (Inr u, w') \<Longrightarrow> sb \<noteq> cb \<or> ci \<le> si \<Longrightarrow>
     (\<forall>k<n. slot_at w' (cb, ci + k) = slot_at w (sb, si + k))
   \<and> (\<forall>qb qi. \<not> (qb = cb \<and> ci \<le> qi \<and> qi < ci + n) \<longrightarrow> slot_at w' (qb, qi) = slot_at w (qb, qi))
   \<and> (\<forall>k<n. \<exists>x. slot_at w (sb, si + k) = Some (Obj x))
   \<and> trace w' = trace w @ map (\<lambda>k. CopyAssign (cb, ci + k)) [0..<n]
   \<and> fresh w' = fresh w \<and> avail w' = avail w \<and> lost w' = lost w"
proof (induction n arbitrary: si ci w)
  case 0
  then show ?case by auto
next
  case (Suc n)
  from Suc.prems(1) obtain w1 where s1: "assign_copy t (sb, si) (cb, ci) w = (Inr (), w1)"
    and s2: "copy_loop t (sb, Suc si) n (cb, Suc ci) w1 = (Inr u, w')"
    by (auto split: prod.splits sum.splits if_splits)
  from s1 obtain x where x: "slot_at w (sb, si) = Some (Obj x)"
    and d: "slot_at w (cb, ci) \<noteq> None"
    and w1: "w1 = log_event (CopyAssign (cb, ci)) (put_slot (cb, ci) (Obj x) w)"
    by (rule assign_copy_InrE)
  have w1s: "slot_at w1 (qb, qi) = (if (qb, qi) = (cb, ci) then Some (Obj x) else slot_at w (qb, qi))" for qb qi
    using d unfolding w1 by auto
  have c: "sb \<noteq> cb \<or> Suc ci \<le> Suc si" using Suc.prems(2) by simp
  note IH = Suc.IH[OF s2 c]
  from IH have A: "\<And>k. k < n \<Longrightarrow> slot_at w' (cb, Suc ci + k) = slot_at w1 (sb, Suc si + k)"
    and B: "\<And>qb qi. \<not> (qb = cb \<and> Suc ci \<le> qi \<and> qi < Suc ci + n) \<Longrightarrow> slot_at w' (qb, qi) = slot_at w1 (qb, qi)"
    and C: "\<And>k. k < n \<Longrightarrow> \<exists>x. slot_at w1 (sb, Suc si + k) = Some (Obj x)"
    and T: "trace w' = trace w1 @ map (\<lambda>k. CopyAssign (cb, Suc ci + k)) [0..<n]"
    and F: "fresh w' = fresh w1" "avail w' = avail w1" "lost w' = lost w1"
    by blast+
  have A': "slot_at w' (cb, ci + k) = slot_at w (sb, si + k)" if "k < Suc n" for k
  proof (cases k)
    case 0
    then show ?thesis using B[of cb ci] w1s x by simp
  next
    case (Suc j)
    then show ?thesis using A[of j] that w1s Suc.prems(2) by auto
  qed
  have B': "slot_at w' (qb, qi) = slot_at w (qb, qi)" if "\<not> (qb = cb \<and> ci \<le> qi \<and> qi < ci + Suc n)" for qb qi
    using B[of qb qi] that w1s by auto
  have C': "\<exists>x. slot_at w (sb, si + k) = Some (Obj x)" if "k < Suc n" for k
  proof (cases k)
    case 0
    then show ?thesis using x by simp
  next
    case (Suc j)
    then show ?thesis using C[of j] that w1s Suc.prems(2) by auto
  qed
  have T': "trace w' = trace w @ map (\<lambda>k. CopyAssign (cb, ci + k)) [0..<Suc n]"
    using T unfolding w1 by (simp add: upt_map_Suc_shift del: upt_Suc)
  show ?case using A' B' C' T' F unfolding w1 by simp
qed

lemma move_loop_Inr:
  "move_loop t (b, Suc i) n (b, i) w = (Inr u, w') \<Longrightarrow>
     (\<forall>k<n. slot_at w' (b, i + k) = slot_at w (b, Suc (i + k)))
   \<and> (0 < n \<longrightarrow> slot_at w' (b, i + n) = map_option (husk t) (slot_at w (b, i + n)))
   \<and> (\<forall>qb qi. \<not> (qb = b \<and> i \<le> qi \<and> qi < Suc (i + n)) \<longrightarrow> slot_at w' (qb, qi) = slot_at w (qb, qi))
   \<and> (n = 0 \<longrightarrow> slot_at w' (b, i) = slot_at w (b, i))
   \<and> (\<forall>k<n. \<exists>x. slot_at w (b, Suc (i + k)) = Some (Obj x))
   \<and> trace w' = trace w @ map (\<lambda>k. MoveAssign (b, i + k)) [0..<n]
   \<and> fresh w' = fresh w \<and> avail w' = avail w \<and> lost w' = lost w"
proof (induction n arbitrary: i w)
  case 0
  then show ?case by auto
next
  case (Suc n)
  from Suc.prems(1) obtain w1 where s1: "assign_move t (b, Suc i) (b, i) w = (Inr (), w1)"
    and s2: "move_loop t (b, Suc (Suc i)) n (b, Suc i) w1 = (Inr u, w')"
    by (auto split: prod.splits sum.splits if_splits)
  from s1 obtain x where x: "slot_at w (b, Suc i) = Some (Obj x)"
    and d: "slot_at w (b, i) \<noteq> None"
    and w1: "w1 = log_event (MoveAssign (b, i))
                    (put_slot (b, i) (Obj x) (put_slot (b, Suc i) (Obj (moved_from t x)) w))"
    by (rule assign_move_InrE)
  have w1s: "slot_at w1 (qb, qi) =
      (if (qb, qi) = (b, i) then Some (Obj x)
       else if (qb, qi) = (b, Suc i) then Some (Obj (moved_from t x)) else slot_at w (qb, qi))" for qb qi
    using d x unfolding w1 by auto
  note IH = Suc.IH[OF s2]
  from IH have A: "\<And>k. k < n \<Longrightarrow> slot_at w' (b, Suc i + k) = slot_at w1 (b, Suc (Suc i + k))"
    and A2: "0 < n \<Longrightarrow> slot_at w' (b, Suc i + n) = map_option (husk t) (slot_at w1 (b, Suc i + n))"
    and B: "\<And>qb qi. \<not> (qb = b \<and> Suc i \<le> qi \<and> qi < Suc (Suc i + n)) \<Longrightarrow> slot_at w' (qb, qi) = slot_at w1 (qb, qi)"
    and Z: "n = 0 \<Longrightarrow> slot_at w' (b, Suc i) = slot_at w1 (b, Suc i)"
    and C: "\<And>k. k < n \<Longrightarrow> \<exists>x. slot_at w1 (b, Suc (Suc i + k)) = Some (Obj x)"
    and T: "trace w' = trace w1 @ map (\<lambda>k. MoveAssign (b, Suc i + k)) [0..<n]"
    and F: "fresh w' = fresh w1" "avail w' = avail w1" "lost w' = lost w1"
    by blast+
  have A': "slot_at w' (b, i + k) = slot_at w (b, Suc (i + k))" if "k < Suc n" for k
  proof (cases k)
    case 0
    then show ?thesis using B[of b i] w1s x by simp
  next
    case (Suc j)
    then show ?thesis using A[of j] that w1s by simp
  qed
  have A2': "slot_at w' (b, i + Suc n) = map_option (husk t) (slot_at w (b, i + Suc n))"
  proof (cases "n = 0")
    case True
    then show ?thesis using Z w1s x by simp
  next
    case False
    then show ?thesis using A2 w1s by simp
  qed
  have B': "slot_at w' (qb, qi) = slot_at w (qb, qi)" if "\<not> (qb = b \<and> i \<le> qi \<and> qi < Suc (i + Suc n))" for qb qi
    using B[of qb qi] that w1s by auto
  have C': "\<exists>x. slot_at w (b, Suc (i + k)) = Some (Obj x)" if "k < Suc n" for k
  proof (cases k)
    case 0
    then show ?thesis using x by simp
  next
    case (Suc j)
    then show ?thesis using C[of j] that w1s by simp
  qed
  have T': "trace w' = trace w @ map (\<lambda>k. MoveAssign (b, i + k)) [0..<Suc n]"
    using T unfolding w1 by (simp add: upt_map_Suc_shift del: upt_Suc)
  show ?case using A' A2' B' C' T' F unfolding w1 by simp
qed

lemma move_backward_loop_Inr:
  "move_backward_loop t m (b, l + m) (b, Suc (l + m)) w = (Inr u, w') \<Longrightarrow>
     (\<forall>k<m. slot_at w' (b, Suc (l + k)) = slot_at w (b, l + k))
   \<and> (0 < m \<longrightarrow> slot_at w' (b, l) = map_option (husk t) (slot_at w (b, l)))
   \<and> (\<forall>qb qi. \<not> (qb = b \<and> l \<le> qi \<and> qi < Suc (l + m)) \<longrightarrow> slot_at w' (qb, qi) = slot_at w (qb, qi))
   \<and> (m = 0 \<longrightarrow> slot_at w' (b, l) = slot_at w (b, l))
   \<and> (\<forall>k<m. \<exists>x. slot_at w (b, l + k) = Some (Obj x))
   \<and> trace w' = trace w @ map (\<lambda>k. MoveAssign (b, l + m - k)) [0..<m]
   \<and> fresh w' = fresh w \<and> avail w' = avail w \<and> lost w' = lost w"
proof (induction m arbitrary: w)
  case 0
  then show ?case by auto
next
  case (Suc m)
  from Suc.prems(1) obtain w1 where s1: "assign_move t (b, l + m) (b, Suc (l + m)) w = (Inr (), w1)"
    and s2: "move_backward_loop t m (b, l + m) (b, Suc (l + m)) w1 = (Inr u, w')"
    by (auto split: prod.splits sum.splits if_splits)
  from s1 obtain x where x: "slot_at w (b, l + m) = Some (Obj x)"
    and d: "slot_at w (b, Suc (l + m)) \<noteq> None"
    and w1: "w1 = log_event (MoveAssign (b, Suc (l + m)))
                    (put_slot (b, Suc (l + m)) (Obj x) (put_slot (b, l + m) (Obj (moved_from t x)) w))"
    by (rule assign_move_InrE)
  have w1s: "slot_at w1 (qb, qi) =
      (if (qb, qi) = (b, Suc (l + m)) then Some (Obj x)
       else if (qb, qi) = (b, l + m) then Some (Obj (moved_from t x)) else slot_at w (qb, qi))" for qb qi
    using d x unfolding w1 by auto
  note IH = Suc.IH[OF s2]
  from IH have A: "\<And>k. k < m \<Longrightarrow> slot_at w' (b, Suc (l + k)) = slot_at w1 (b, l + k)"
    and A2: "0 < m \<Longrightarrow> slot_at w' (b, l) = map_option (husk t) (slot_at w1 (b, l))"
    and B: "\<And>qb qi. \<not> (qb = b \<and> l \<le> qi \<and> qi < Suc (l + m)) \<Longrightarrow> slot_at w' (qb, qi) = slot_at w1 (qb, qi)"
    and Z: "m = 0 \<Longrightarrow> slot_at w' (b, l) = slot_at w1 (b, l)"
    and C: "\<And>k. k < m \<Longrightarrow> \<exists>x. slot_at w1 (b, l + k) = Some (Obj x)"
    and T: "trace w' = trace w1 @ map (\<lambda>k. MoveAssign (b, l + m - k)) [0..<m]"
    and F: "fresh w' = fresh w1" "avail w' = avail w1" "lost w' = lost w1"
    by blast+
  have A': "slot_at w' (b, Suc (l + k)) = slot_at w (b, l + k)" if "k < Suc m" for k
  proof (cases "k = m")
    case True
    then show ?thesis using B[of b "Suc (l + m)"] w1s x by simp
  next
    case False
    with that have "k < m" by simp
    then show ?thesis using A[of k] w1s by simp
  qed
  have A2': "slot_at w' (b, l) = map_option (husk t) (slot_at w (b, l))"
  proof (cases "m = 0")
    case True
    then show ?thesis using Z w1s x by simp
  next
    case False
    then show ?thesis using A2 w1s by simp
  qed
  have B': "slot_at w' (qb, qi) = slot_at w (qb, qi)" if "\<not> (qb = b \<and> l \<le> qi \<and> qi < Suc (l + Suc m))" for qb qi
    using B[of qb qi] that w1s by auto
  have C': "\<exists>x. slot_at w (b, l + k) = Some (Obj x)" if "k < Suc m" for k
  proof (cases "k = m")
    case True
    then show ?thesis using x by simp
  next
    case False
    with that have "k < m" by simp
    then show ?thesis using C[of k] w1s by simp
  qed
  have T': "trace w' = trace w @ map (\<lambda>k. MoveAssign (b, l + Suc m - k)) [0..<Suc m]"
    using T unfolding w1 by (simp add: upt_map_Suc_shift Suc_diff_le del: upt_Suc)
  show ?case using A' A2' B' C' T' F unfolding w1 by simp
qed

lemma slot_at_null [simp]: "slot_at w (None, i) = None"
  by (simp add: slot_at_def)

lemma operator_new_Inr:
  "operator_new t bytes w = (Inr b, w') \<Longrightarrow>
     b = fresh w
   \<and> (\<forall>qb qi. slot_at w' (qb, qi) =
        (if qb = Some (fresh w) then (if qi < bytes div sizeof_T t then Some Raw else None)
         else slot_at w (qb, qi)))
   \<and> trace w' = trace w \<and> fresh w' = Suc (fresh w) \<and> lost w' = lost w"
  by (auto simp: operator_new_def slot_at_def split: if_splits option.splits)

lemma Deallocate_Inr:
  "Deallocate bo w = (Inr u, w') \<Longrightarrow>
     (\<forall>qb qi. slot_at w' (qb, qi) = (if qb = bo then None else slot_at w (qb, qi)))
   \<and> trace w' = trace w \<and> fresh w' = fresh w"
  by (auto simp: Deallocate_def operator_delete_def slot_at_def split: if_splits option.splits)

lemma block_slots_allocatable [simp]: "allocatable t n \<Longrightarrow> block_slots t n = n"
  by (simp add: block_slots_def allocatable_def)

lemma RawMemory_ctor_Inr:
  "RawMemory_ctor t n w = (Inr buf, w') \<Longrightarrow> 0 < n \<Longrightarrow>
     buf = \<lparr>buffer = Some (fresh w), capacity = n\<rparr>
   \<and> (\<forall>qb qi. slot_at w' (qb, qi) =
        (if qb = Some (fresh w) then (if qi < block_slots t n then Some Raw else None)
         else slot_at w (qb, qi)))
   \<and> trace w' = trace w \<and> fresh w' = Suc (fresh w) \<and> lost w' = lost w"
  using operator_new_Inr[of t "(n * sizeof_T t) mod 2 ^ 64" w _ w']
  by (auto simp: RawMemory_ctor_def Allocate_def block_slots_def split: if_splits prod.splits sum.splits)

lemma MoveOrCopy_Inr:
  "MoveOrCopy t (sb, si) n (cb, ci) w = (Inr u, w') \<Longrightarrow> sb \<noteq> cb \<Longrightarrow>
     (\<forall>k<n. slot_at w' (cb, ci + k) = slot_at w (sb, si + k))
   \<and> (\<forall>qb qi. \<not> (qb = cb \<and> ci \<le> qi \<and> qi < ci + n) \<and> qb \<noteq> sb
         \<longrightarrow> slot_at w' (qb, qi) = slot_at w (qb, qi))
   \<and> (\<forall>qi. \<not> (si \<le> qi \<and> qi < si + n) \<longrightarrow> slot_at w' (sb, qi) = slot_at w (sb, qi))
   \<and> (\<forall>k<n. \<exists>x. slot_at w (sb, si + k) = Some (Obj x))
   \<and> trace w' = trace w @
        map (\<lambda>k. if nothrow_move_constructible t \<or> \<not> copy_constructible t
                  then MoveCtor (cb, ci + k) else CopyCtor (cb, ci + k)) [0..<n]
   \<and> fresh w' = fresh w \<and> avail w' = avail w \<and> lost w' = lost w"
proof (cases "nothrow_move_constructible t \<or> \<not> copy_constructible t")
  case True
  assume a: "MoveOrCopy t (sb, si) n (cb, ci) w = (Inr u, w')" and ne: "sb \<noteq> cb"
  from a True have "uninitialized_move_loop t (cb, ci) (sb, si) n (cb, ci) w = (Inr u, w')"
    by (simp add: MoveOrCopy_def uninitialized_move_n_def)
  from uninitialized_move_loop_Inr[OF this ne] True ne show ?thesis
    by (simp cong: map_cong)
next
  case False
  assume a: "MoveOrCopy t (sb, si) n (cb, ci) w = (Inr u, w')" and ne: "sb \<noteq> cb"
  from a False have "uninitialized_copy_loop t (cb, ci) (sb, si) n (cb, ci) w = (Inr u, w')"
    by (simp add: MoveOrCopy_def uninitialized_copy_n_def)
  from uninitialized_copy_loop_Inr[OF this ne] False ne show ?thesis
    by (simp cong: map_cong)
qed

lemma value_at_Some [simp]: "value_at w p = Some x \<longleftrightarrow> slot_at w p = Some (Obj x)"
  by (auto simp: value_at_def split: option.splits slot.splits)

lemma construct_from_Inr:
  "construct_from t a dst w = (Inr u, w') \<Longrightarrow> moved_slot a = None \<Longrightarrow>
     (\<exists>x. referent w a = Some x
        \<and> (\<forall>q. slot_at w' q = (if q = dst then Some (Obj x) else slot_at w q)))
   \<and> trace w' = trace w @ [ctor_event a dst]
   \<and> fresh w' = fresh w \<and> avail w' = avail w \<and> lost w' = lost w"
proof (cases a)
  case (ByConstRef r)
  assume a: "construct_from t a dst w = (Inr u, w')"
  show ?thesis
  proof (cases r)
    case (Outside x)
    with a ByConstRef show ?thesis
      by (auto simp: construct_from_def split: option.splits if_splits)
  next
    case (Inside p)
    with a ByConstRef have "construct_copy t p dst w = (Inr u, w')"
      by (simp add: construct_from_def)
    then show ?thesis using ByConstRef Inside
      by (auto elim!: construct_copy_InrE)
  qed
next
  case (ByRvalue r)
  assume a: "construct_from t a dst w = (Inr u, w')" and m: "moved_slot a = None"
  from m ByRvalue obtain x where "r = Outside x" by (cases r) auto
  with a ByRvalue show ?thesis
    by (auto simp: construct_from_def split: option.splits if_splits)
next
  case (FromArgs x)
  assume "construct_from t a dst w = (Inr u, w')"
  with FromArgs show ?thesis
    by (auto simp: construct_from_def split: option.splits if_splits)
qed

lemma bind_InrE:
  assumes "bind m f s = (Inr y, s')"
  obtains x s1 where "m s = (Inr x, s1)" "f x s1 = (Inr y, s')"
  using assms by (auto simp: bind_def split: prod.splits sum.splits)

lemma at_address_InrE:
  assumes "at_address r f s = (Inr y, s')"
  obtains p where "r = Inr p" "f p s = (Inr y, s')"
  using assms by (auto simp: at_address_def split: sum.splits)

lemma MoveOrCopyAndSwap_InrE:
  assumes "MoveOrCopyAndSwap t dat n buf w = (Inr (d, b), w')"
  obtains w1 where
    "MoveOrCopy t (buffer dat, 0) n (buffer buf, 0) w = (Inr (), w1)"
    "destroy_n (buffer dat, 0) n w1 = (Inr (), w')"
    "d = \<lparr>buffer = buffer buf, capacity = capacity buf\<rparr>"
    "b = \<lparr>buffer = buffer dat, capacity = capacity dat\<rparr>"
proof -
  from assms obtain x w1 where m: "MoveOrCopy t (GetAddress dat) n (GetAddress buf) w = (Inr x, w1)"
    and r: "bind (destroy_n (GetAddress dat) n) (\<lambda>_ w'. (Inr (RawMemory_Swap dat buf), w')) w1 = (Inr (d, b), w')"
    unfolding MoveOrCopyAndSwap_def by (rule bind_InrE)
  from r obtain y w2 where dn: "destroy_n (GetAddress dat) n w1 = (Inr y, w2)"
    and e: "(Inr (RawMemory_Swap dat buf), w2) = (Inr (d, b), w')"
    by (auto elim: bind_InrE)
  from e have "w2 = w'" "d = \<lparr>buffer = buffer buf, capacity = capacity buf\<rparr>"
    "b = \<lparr>buffer = buffer dat, capacity = capacity dat\<rparr>"
    by (auto simp: RawMemory_Swap_def)
  with m dn that show ?thesis by (simp add: GetAddress_def)
qed

lemma EmplaceBack_return_Inr:
  "EmplaceBack_return v w = (Inr r, v', w') \<Longrightarrow>
     r = (buffer (data v), vsize v) \<and> v' = v\<lparr>vsize := vsize v + 1\<rparr> \<and> w' = w
     \<and> vsize v < capacity (data v)"
  by (auto simp: EmplaceBack_return_def Vector_index_def raw_index_def split: sum.splits if_splits)

lemma EmplaceBack_grow_steps:
  assumes "EmplaceBack t a v w = (Inr r, v', w')" "vsize v = capacity (data v)"
  obtains buf w1 w2 w3 w4 where
    "RawMemory_ctor t (if vsize v = 0 then 1 else vsize v * 2) w = (Inr buf, w1)"
    "construct_from t a (buffer buf, vsize v) w1 = (Inr (), w2)"
    "MoveOrCopy t (buffer (data v), 0) (vsize v) (buffer buf, 0) w2 = (Inr (), w3)"
    "destroy_n (buffer (data v), 0) (vsize v) w3 = (Inr (), w4)"
    "Deallocate (buffer (data v)) w4 = (Inr (), w')"
    "v' = \<lparr>data = \<lparr>buffer = buffer buf, capacity = capacity buf\<rparr>, vsize = vsize v + 1\<rparr>"
    "r = (buffer buf, vsize v)"
proof -
  let ?n = "if vsize v = 0 then 1 else vsize v * 2"
  obtain rb w1 where rc: "RawMemory_ctor t ?n w = (rb, w1)" by (cases "RawMemory_ctor t ?n w")
  with assms obtain buf where rb: "rb = Inr buf"
    by (cases rb) (auto simp: EmplaceBack_def Capacity_def Capacity_raw_def)
  let ?body = "bind (at_address (raw_index buf (vsize v)) (construct_from t a))
                 (\<lambda>_. MoveOrCopyAndSwap t (data v) (vsize v) buf)"
  obtain rm w3' where bd: "?body w1 = (rm, w3')" by (cases "?body w1")
  from assms rc rb bd obtain d b where rm: "rm = Inr (d, b)"
    by (cases rm) (auto simp: EmplaceBack_def Capacity_def Capacity_raw_def at_scope_exit_def
        split: prod.splits sum.splits if_splits)
  obtain rd w5 where dt: "RawMemory_dtor b w3' = (rd, w5)" by (cases "RawMemory_dtor b w3'")
  from assms rc rb bd rm dt have ret: "EmplaceBack_return (v\<lparr>data := d\<rparr>) w5 = (Inr r, v', w')"
    by (cases rd) (auto simp: EmplaceBack_def Capacity_def Capacity_raw_def)
  from assms rc rb bd rm dt have rd: "rd = Inr ()"
    by (cases rd) (auto simp: EmplaceBack_def Capacity_def Capacity_raw_def)
  from bd rm obtain x w2 where c0: "at_address (raw_index buf (vsize v)) (construct_from t a) w1 = (Inr x, w2)"
    and ms: "MoveOrCopyAndSwap t (data v) (vsize v) buf w2 = (Inr (d, b), w3')"
    by (auto elim: bind_InrE)
  from c0 have c: "construct_from t a (buffer buf, vsize v) w1 = (Inr (), w2)"
    by (auto elim!: at_address_InrE simp: raw_index_def split: if_splits)
  from ms obtain w3 where mc: "MoveOrCopy t (buffer (data v), 0) (vsize v) (buffer buf, 0) w2 = (Inr (), w3)"
    and dn: "destroy_n (buffer (data v), 0) (vsize v) w3 = (Inr (), w3')"
    and d: "d = \<lparr>buffer = buffer buf, capacity = capacity buf\<rparr>"
    and b: "b = \<lparr>buffer = buffer (data v), capacity = capacity (data v)\<rparr>"
    by (rule MoveOrCopyAndSwap_InrE)
  from EmplaceBack_return_Inr[OF ret] have r: "r = (buffer buf, vsize v)"
    and v': "v' = \<lparr>data = \<lparr>buffer = buffer buf, capacity = capacity buf\<rparr>, vsize = vsize v + 1\<rparr>"
    and w5: "w' = w5"
    by (simp_all add: d)
  from dt rd b w5 have de: "Deallocate (buffer (data v)) w3' = (Inr (), w')"
    by (simp add: RawMemory_dtor_def)
  from rc rb c mc dn de v' r that show ?thesis by blast
qed

lemma value_at_cong: "slot_at w' p = slot_at w q \<Longrightarrow> value_at w' p = value_at w q"
  by (simp add: value_at_def)

lemma well_formed_block_old:
  "well_formed v w \<Longrightarrow> buffer (data v) \<noteq> Some (fresh w)"
  by (auto simp: well_formed_def split: option.splits)

lemma referent_after_new:
  assumes "\<forall>qb qi. qb \<noteq> Some nb \<longrightarrow> slot_at w1 (qb, qi) = slot_at w (qb, qi)"
    and "\<forall>p. a = ByConstRef (Inside p) \<longrightarrow> fst p \<noteq> Some nb"
    and "moved_slot a = None"
  shows "referent w1 a = referent w a"
proof (cases a)
  case (ByConstRef r)
  then show ?thesis using assms(1,2)
    by (cases r) (auto simp: value_at_def split: prod.splits)
next
  case (ByRvalue r)
  then show ?thesis using assms(3) by (cases r) auto
next
  case (FromArgs x)
  then show ?thesis by simp
qed

lemma EmplaceBack_grow_Inr:
  assumes run: "EmplaceBack t a v w = (Inr r, v', w')"
    and full: "vsize v = capacity (data v)"
    and wf: "well_formed v w"
    and am: "moved_slot a = None"
    and ar: "\<forall>p. a = ByConstRef (Inside p) \<longrightarrow> fst p \<noteq> Some (fresh w)"
  shows "v' = \<lparr>data = \<lparr>buffer = Some (fresh w), capacity = max 1 (2 * vsize v)\<rparr>, vsize = vsize v + 1\<rparr>
       \<and> r = (Some (fresh w), vsize v)
       \<and> (\<exists>x. referent w a = Some x \<and> slot_at w' (Some (fresh w), vsize v) = Some (Obj x))
       \<and> (\<forall>k<vsize v. slot_at w' (Some (fresh w), k) = slot_at w (buffer (data v), k))
       \<and> (\<forall>k. vsize v < k \<and> k < block_slots t (max 1 (2 * vsize v)) \<longrightarrow> slot_at w' (Some (fresh w), k) = Some Raw)
       \<and> (\<forall>qb qi. qb \<noteq> Some (fresh w) \<and> qb \<noteq> buffer (data v) \<longrightarrow> slot_at w' (qb, qi) = slot_at w (qb, qi))
       \<and> (\<forall>qi. slot_at w' (buffer (data v), qi) = None)
       \<and> trace w' = trace w @ ctor_event a (Some (fresh w), vsize v)
            # map (\<lambda>k. if nothrow_move_constructible t \<or> \<not> copy_constructible t
                        then MoveCtor (Some (fresh w), k) else CopyCtor (Some (fresh w), k)) [0..<vsize v]
            @ map (\<lambda>k. Dtor (buffer (data v), k)) [0..<vsize v]
       \<and> fresh w' = Suc (fresh w)"
proof -
  let ?n = "if vsize v = 0 then 1 else vsize v * 2"
  let ?bo = "buffer (data v)"
  let ?nb = "Some (fresh w)"
  have n: "0 < ?n" "?n = max 1 (2 * vsize v)" by auto
  from run full obtain buf w1 w2 w3 w4 where
    s1: "RawMemory_ctor t ?n w = (Inr buf, w1)"
    and s2: "construct_from t a (buffer buf, vsize v) w1 = (Inr (), w2)"
    and s3: "MoveOrCopy t (?bo, 0) (vsize v) (buffer buf, 0) w2 = (Inr (), w3)"
    and s4: "destroy_n (?bo, 0) (vsize v) w3 = (Inr (), w4)"
    and s5: "Deallocate ?bo w4 = (Inr (), w')"
    and v': "v' = \<lparr>data = \<lparr>buffer = buffer buf, capacity = capacity buf\<rparr>, vsize = vsize v + 1\<rparr>"
    and r: "r = (buffer buf, vsize v)"
    by (rule EmplaceBack_grow_steps)
  from RawMemory_ctor_Inr[OF s1 n(1)] have buf: "buf = \<lparr>buffer = ?nb, capacity = ?n\<rparr>"
    and h1: "\<And>qb qi. slot_at w1 (qb, qi) =
        (if qb = ?nb then (if qi < block_slots t ?n then Some Raw else None) else slot_at w (qb, qi))"
    and t1: "trace w1 = trace w" and f1: "fresh w1 = Suc (fresh w)"
    by blast+
  have ne: "?bo \<noteq> ?nb" using wf by (rule well_formed_block_old)
  from s2 buf have s2': "construct_from t a (?nb, vsize v) w1 = (Inr (), w2)" by simp
  from construct_from_Inr[OF s2' am] obtain x where x: "referent w1 a = Some x"
    and h2: "\<And>q. slot_at w2 q = (if q = (?nb, vsize v) then Some (Obj x) else slot_at w1 q)"
    and t2: "trace w2 = trace w1 @ [ctor_event a (?nb, vsize v)]" and f2: "fresh w2 = fresh w1"
    by blast
  have "referent w1 a = referent w a"
    using h1 ar am by (intro referent_after_new[where nb="fresh w"]) auto
  with x have xr: "referent w a = Some x" by simp
  from s3 buf have s3': "MoveOrCopy t (?bo, 0) (vsize v) (?nb, 0) w2 = (Inr (), w3)" by simp
  from MoveOrCopy_Inr[OF s3' ne]
  have h3a: "\<And>k. k < vsize v \<Longrightarrow> slot_at w3 (?nb, k) = slot_at w2 (?bo, k)"
    and h3b: "\<And>qb qi. \<not> (qb = ?nb \<and> qi < vsize v) \<and> qb \<noteq> ?bo \<Longrightarrow> slot_at w3 (qb, qi) = slot_at w2 (qb, qi)"
    and t3: "trace w3 = trace w2 @
        map (\<lambda>k. if nothrow_move_constructible t \<or> \<not> copy_constructible t
                  then MoveCtor (?nb, k) else CopyCtor (?nb, k)) [0..<vsize v]"
    and f3: "fresh w3 = fresh w2"
    by auto
  from destroy_n_Inr[OF s4]
  have h4: "\<And>qb qi. qb \<noteq> ?bo \<Longrightarrow> slot_at w4 (qb, qi) = slot_at w3 (qb, qi)"
    and t4: "trace w4 = trace w3 @ map (\<lambda>k. Dtor (?bo, k)) [0..<vsize v]"
    and f4: "fresh w4 = fresh w3"
    by auto
  from Deallocate_Inr[OF s5]
  have h5: "\<And>qb qi. slot_at w' (qb, qi) = (if qb = ?bo then None else slot_at w4 (qb, qi))"
    and t5: "trace w' = trace w4" and f5: "fresh w' = fresh w4"
    by auto
  have c1: "v' = \<lparr>data = \<lparr>buffer = ?nb, capacity = max 1 (2 * vsize v)\<rparr>, vsize = vsize v + 1\<rparr>"
    using v' buf n(2) by simp
  have c2: "r = (?nb, vsize v)" using r buf by simp
  have c3: "slot_at w' (?nb, vsize v) = Some (Obj x)"
    using ne h5 h4 h3b h2 by (simp add: eq_commute[of ?bo])
  have c4: "slot_at w' (?nb, k) = slot_at w (?bo, k)" if "k < vsize v" for k
    using that ne h5 h4 h3a h2 h1 by (simp add: eq_commute[of ?bo])
  have c5: "slot_at w' (?nb, k) = Some Raw" if "vsize v < k \<and> k < block_slots t (max 1 (2 * vsize v))" for k
    using that ne h5 h4 h3b h2 h1 n(2) by (simp add: eq_commute[of ?bo])
  have c6: "slot_at w' (qb, qi) = slot_at w (qb, qi)" if "qb \<noteq> ?nb \<and> qb \<noteq> ?bo" for qb qi
    using that h5 h4 h3b h2 h1 by simp
  have c7: "slot_at w' (?bo, qi) = None" for qi
    using h5 by simp
  have c8: "trace w' = trace w @ ctor_event a (?nb, vsize v)
            # map (\<lambda>k. if nothrow_move_constructible t \<or> \<not> copy_constructible t
                        then MoveCtor (?nb, k) else CopyCtor (?nb, k)) [0..<vsize v]
            @ map (\<lambda>k. Dtor (?bo, k)) [0..<vsize v]"
    using t1 t2 t3 t4 t5 by simp
  have c9: "fresh w' = Suc (fresh w)" using f1 f2 f3 f4 f5 by simp
  show ?thesis using c1 c2 c3 xr c4 c5 c6 c7 c8 c9 by blast
qed

lemma elements_eq_nth:
  "length (elements v w) = vsize v"
  "k < vsize v \<Longrightarrow> elements v w ! k = value_at w (buffer (data v), k)"
  by (simp_all add: elements_def)

lemma EmplaceBack_room_Inr:
  assumes run: "EmplaceBack t a v w = (Inr r, v', w')"
    and room: "vsize v \<noteq> capacity (data v)"
    and am: "moved_slot a = None"
  shows "v' = v\<lparr>vsize := vsize v + 1\<rparr>
       \<and> r = (buffer (data v), vsize v)
       \<and> (\<exists>x. referent w a = Some x \<and> slot_at w' (buffer (data v), vsize v) = Some (Obj x))
       \<and> (\<forall>q. q \<noteq> (buffer (data v), vsize v) \<longrightarrow> slot_at w' q = slot_at w q)
       \<and> trace w' = trace w @ [ctor_event a (buffer (data v), vsize v)]
       \<and> fresh w' = fresh w"
proof -
  let ?step = "at_address (raw_index (data v) (vsize v)) (construct_from t a)"
  obtain rc w1 where s: "?step w = (rc, w1)" by (cases "?step w")
  from run room s have ret: "EmplaceBack_return v w1 = (Inr r, v', w')" and rc: "rc = Inr ()"
    by (cases rc; simp add: EmplaceBack_def Capacity_def Capacity_raw_def)+
  from s rc have c: "construct_from t a (buffer (data v), vsize v) w = (Inr (), w1)"
    by (auto elim!: at_address_InrE simp: raw_index_def split: if_splits)
  from EmplaceBack_return_Inr[OF ret] have e: "r = (buffer (data v), vsize v)"
    "v' = v\<lparr>vsize := vsize v + 1\<rparr>" "w' = w1"
    by simp_all
  from construct_from_Inr[OF c am] e show ?thesis by auto
qed

text \<open>What a successful \<^verbatim>\<open>EmplaceBack\<close> leaves, whichever branch it took.\<close>

lemma EmplaceBack_Inr:
  assumes run: "EmplaceBack t a v w = (Inr r, v', w')"
    and wf: "well_formed v w"
    and am: "moved_slot a = None"
    and ar: "\<forall>p. a = ByConstRef (Inside p) \<longrightarrow> fst p \<noteq> Some (fresh w)"
  shows "vsize v' = vsize v + 1
       \<and> r = (buffer (data v'), vsize v)
       \<and> elements v' w' = elements v w @ [referent w a]
       \<and> referent w a \<noteq> None
       \<and> capacity (data v') =
           (if vsize v = capacity (data v) then max 1 (2 * vsize v) else capacity (data v))"
proof (cases "vsize v = capacity (data v)")
  case True
  from EmplaceBack_grow_Inr[OF run True wf am ar] obtain x where
    v': "v' = \<lparr>data = \<lparr>buffer = Some (fresh w), capacity = max 1 (2 * vsize v)\<rparr>, vsize = vsize v + 1\<rparr>"
    and r: "r = (Some (fresh w), vsize v)"
    and x: "referent w a = Some x" "slot_at w' (Some (fresh w), vsize v) = Some (Obj x)"
    and old: "\<And>k. k < vsize v \<Longrightarrow> slot_at w' (Some (fresh w), k) = slot_at w (buffer (data v), k)"
    by blast
  have "elements v' w' = elements v w @ [Some x]"
    unfolding elements_def v' using x(2) old
    by (auto simp: value_at_def intro!: nth_equalityI simp: nth_append)
  with v' r x True show ?thesis by simp
next
  case False
  from EmplaceBack_room_Inr[OF run False am] obtain x where
    v': "v' = v\<lparr>vsize := vsize v + 1\<rparr>"
    and r: "r = (buffer (data v), vsize v)"
    and x: "referent w a = Some x" "slot_at w' (buffer (data v), vsize v) = Some (Obj x)"
    and old: "\<And>q. q \<noteq> (buffer (data v), vsize v) \<Longrightarrow> slot_at w' q = slot_at w q"
    by blast
  have "elements v' w' = elements v w @ [Some x]"
    unfolding elements_def v' using x(2) old
    by (auto simp: value_at_def intro!: nth_equalityI simp: nth_append)
  with v' r x False show ?thesis by simp
qed

lemma new_T_Inr:
  assumes run: "new_T t a w = (Inr p, w')"
    and am: "moved_slot a = None"
    and ar: "\<forall>q. a = ByConstRef (Inside q) \<longrightarrow> fst q \<noteq> Some (fresh w)"
  shows "p = (Some (fresh w), 0)
       \<and> (\<exists>x. referent w a = Some x \<and> slot_at w' (Some (fresh w), 0) = Some (Obj x))
       \<and> (\<forall>qb qi. qb \<noteq> Some (fresh w) \<longrightarrow> slot_at w' (qb, qi) = slot_at w (qb, qi))
       \<and> trace w' = trace w @ [ctor_event a (Some (fresh w), 0)]
       \<and> fresh w' = Suc (fresh w)"
proof -
  obtain rb w1 where s1: "operator_new t (sizeof_T t) w = (rb, w1)"
    by (cases "operator_new t (sizeof_T t) w")
  with run obtain b where rb: "rb = Inr b" by (cases rb) (auto simp: new_T_def)
  let ?c = "construct_from t a (Some b, 0) w1"
  obtain rc w2 where s2: "?c = (rc, w2)" by (cases ?c)
  from run s1 rb s2 have rc: "rc = Inr ()" and p: "p = (Some b, 0)" and w': "w' = w2"
    by (cases rc; auto simp: new_T_def on_throw_def split: if_splits prod.splits sum.splits)+
  from operator_new_Inr[of t "sizeof_T t" w b w1] s1 rb have b: "b = fresh w"
    and h1: "\<And>qb qi. slot_at w1 (qb, qi) =
        (if qb = Some (fresh w) then (if qi < sizeof_T t div sizeof_T t then Some Raw else None) else slot_at w (qb, qi))"
    and t1: "trace w1 = trace w" and f1: "fresh w1 = Suc (fresh w)"
    by auto
  from s2 rc b have c: "construct_from t a (Some (fresh w), 0) w1 = (Inr (), w2)" by simp
  from construct_from_Inr[OF c am] obtain x where x: "referent w1 a = Some x"
    and h2: "\<And>q. slot_at w2 q = (if q = (Some (fresh w), 0) then Some (Obj x) else slot_at w1 q)"
    and t2: "trace w2 = trace w1 @ [ctor_event a (Some (fresh w), 0)]" and f2: "fresh w2 = fresh w1"
    by blast
  have "referent w1 a = referent w a"
    using h1 ar am by (intro referent_after_new[where nb="fresh w"]) auto
  with x have xr: "referent w a = Some x" by simp
  show ?thesis using p b w' xr h2 h1 t1 t2 f1 f2 by auto
qed

lemma raw_memory_update_all:
  "(rm :: raw_memory)\<lparr>buffer := a, capacity := c\<rparr> = \<lparr>buffer = a, capacity = c\<rparr>"
  by (cases rm) simp

lemma Emplace_grow_steps:
  assumes "Emplace_grow t dist a v w = (Inr r, v', w')"
  obtains buf w1 w2 w3 w4 w5 where
    "RawMemory_ctor t (if vsize v = 0 then 1 else vsize v * 2) w = (Inr buf, w1)"
    "construct_from t a (buffer buf, dist) w1 = (Inr (), w2)"
    "MoveOrCopy t (buffer (data v), 0) dist (buffer buf, 0) w2 = (Inr (), w3)"
    "MoveOrCopy t (buffer (data v), dist) (vsize v - dist) (buffer buf, dist + 1) w3 = (Inr (), w4)"
    "destroy_n (buffer (data v), 0) (vsize v) w4 = (Inr (), w5)"
    "Deallocate (buffer (data v)) w5 = (Inr (), w')"
    "v' = \<lparr>data = \<lparr>buffer = buffer buf, capacity = capacity buf\<rparr>, vsize = vsize v + 1\<rparr>"
    "r = (buffer buf, dist)"
proof -
  let ?n = "if vsize v = 0 then 1 else vsize v * 2"
  obtain rb w1 where rc: "RawMemory_ctor t ?n w = (rb, w1)" by (cases "RawMemory_ctor t ?n w")
  with assms obtain buf where rb: "rb = Inr buf"
    by (cases rb) (auto simp: Emplace_grow_def)
  let ?body = "bind (construct_from t a (ptr_add (GetAddress buf) dist))
                  (\<lambda>_. bind (MoveOrCopy t (GetAddress (data v)) dist (GetAddress buf))
                  (\<lambda>_. bind (MoveOrCopy t (ptr_add (GetAddress (data v)) dist) (vsize v - dist)
                               (ptr_add (GetAddress buf) (dist + 1)))
                  (\<lambda>_. destroy_n (GetAddress (data v)) (vsize v))))"
  obtain rm w5 where bd: "?body w1 = (rm, w5)" by (cases "?body w1")
  from assms rc rb bd have rm: "rm = Inr ()"
    by (cases rm) (auto simp: Emplace_grow_def at_scope_exit_def split: prod.splits sum.splits if_splits)
  let ?b = "snd (RawMemory_Swap (data v) buf)"
  obtain rd w6 where dt: "RawMemory_dtor ?b w5 = (rd, w6)" by (cases "RawMemory_dtor ?b w5")
  from assms rc rb bd rm dt have fin: "rd = Inr () \<and> w' = w6
      \<and> v' = \<lparr>data = \<lparr>buffer = buffer buf, capacity = capacity buf\<rparr>, vsize = vsize v + 1\<rparr>
      \<and> r = (buffer buf, dist)"
    by (cases rd) (auto simp: Emplace_grow_def RawMemory_Swap_def GetAddress_def raw_memory_update_all)
  from bd rm obtain w2 w3 w4 where c: "construct_from t a (buffer buf, dist) w1 = (Inr (), w2)"
    and m1: "MoveOrCopy t (buffer (data v), 0) dist (buffer buf, 0) w2 = (Inr (), w3)"
    and m2: "MoveOrCopy t (buffer (data v), dist) (vsize v - dist) (buffer buf, dist + 1) w3 = (Inr (), w4)"
    and dn: "destroy_n (buffer (data v), 0) (vsize v) w4 = (Inr (), w5)"
    by (auto elim!: bind_InrE simp: GetAddress_def)
  from dt fin have de: "Deallocate (buffer (data v)) w5 = (Inr (), w')"
    by (simp add: RawMemory_dtor_def RawMemory_Swap_def)
  from rc rb c m1 m2 dn de fin that show ?thesis by blast
qed

lemma Emplace_grow_Inr:
  assumes run: "Emplace_grow t dist a v w = (Inr r, v', w')"
    and wf: "well_formed v w"
    and dist: "dist \<le> vsize v"
    and am: "moved_slot a = None"
    and ar: "\<forall>p. a = ByConstRef (Inside p) \<longrightarrow> fst p \<noteq> Some (fresh w)"
  shows "v' = \<lparr>data = \<lparr>buffer = Some (fresh w), capacity = max 1 (2 * vsize v)\<rparr>, vsize = vsize v + 1\<rparr>
       \<and> r = (Some (fresh w), dist)
       \<and> (\<exists>x. referent w a = Some x \<and> slot_at w' (Some (fresh w), dist) = Some (Obj x))
       \<and> (\<forall>k<dist. slot_at w' (Some (fresh w), k) = slot_at w (buffer (data v), k))
       \<and> (\<forall>k. dist \<le> k \<and> k < vsize v \<longrightarrow> slot_at w' (Some (fresh w), Suc k) = slot_at w (buffer (data v), k))
       \<and> (\<forall>k. vsize v < k \<and> k < block_slots t (max 1 (2 * vsize v)) \<longrightarrow> slot_at w' (Some (fresh w), k) = Some Raw)
       \<and> (\<forall>qb qi. qb \<noteq> Some (fresh w) \<and> qb \<noteq> buffer (data v) \<longrightarrow> slot_at w' (qb, qi) = slot_at w (qb, qi))
       \<and> (\<forall>qi. slot_at w' (buffer (data v), qi) = None)
       \<and> trace w' = trace w @ ctor_event a (Some (fresh w), dist)
            # map (\<lambda>k. if nothrow_move_constructible t \<or> \<not> copy_constructible t
                        then MoveCtor (Some (fresh w), k) else CopyCtor (Some (fresh w), k)) [0..<dist]
            @ map (\<lambda>k. if nothrow_move_constructible t \<or> \<not> copy_constructible t
                        then MoveCtor (Some (fresh w), dist + 1 + k) else CopyCtor (Some (fresh w), dist + 1 + k))
                [0..<vsize v - dist]
            @ map (\<lambda>k. Dtor (buffer (data v), k)) [0..<vsize v]
       \<and> fresh w' = Suc (fresh w)"
proof -
  let ?n = "if vsize v = 0 then 1 else vsize v * 2"
  let ?bo = "buffer (data v)"
  let ?nb = "Some (fresh w)"
  have n: "0 < ?n" "?n = max 1 (2 * vsize v)" by auto
  from run obtain buf w1 w2 w3 w4 w5 where
    s1: "RawMemory_ctor t ?n w = (Inr buf, w1)"
    and s2: "construct_from t a (buffer buf, dist) w1 = (Inr (), w2)"
    and s3: "MoveOrCopy t (?bo, 0) dist (buffer buf, 0) w2 = (Inr (), w3)"
    and s4: "MoveOrCopy t (?bo, dist) (vsize v - dist) (buffer buf, dist + 1) w3 = (Inr (), w4)"
    and s5: "destroy_n (?bo, 0) (vsize v) w4 = (Inr (), w5)"
    and s6: "Deallocate ?bo w5 = (Inr (), w')"
    and v': "v' = \<lparr>data = \<lparr>buffer = buffer buf, capacity = capacity buf\<rparr>, vsize = vsize v + 1\<rparr>"
    and r: "r = (buffer buf, dist)"
    by (rule Emplace_grow_steps)
  from RawMemory_ctor_Inr[OF s1 n(1)] have buf: "buf = \<lparr>buffer = ?nb, capacity = ?n\<rparr>"
    and h1: "\<And>qb qi. slot_at w1 (qb, qi) =
        (if qb = ?nb then (if qi < block_slots t ?n then Some Raw else None) else slot_at w (qb, qi))"
    and t1: "trace w1 = trace w" and f1: "fresh w1 = Suc (fresh w)"
    by blast+
  have ne: "?bo \<noteq> ?nb" using wf by (rule well_formed_block_old)
  from s2 buf have s2': "construct_from t a (?nb, dist) w1 = (Inr (), w2)" by simp
  from construct_from_Inr[OF s2' am] obtain x where x: "referent w1 a = Some x"
    and h2: "\<And>q. slot_at w2 q = (if q = (?nb, dist) then Some (Obj x) else slot_at w1 q)"
    and t2: "trace w2 = trace w1 @ [ctor_event a (?nb, dist)]" and f2: "fresh w2 = fresh w1"
    by blast
  have "referent w1 a = referent w a"
    using h1 ar am by (intro referent_after_new[where nb="fresh w"]) auto
  with x have xr: "referent w a = Some x" by simp
  from s3 buf have s3': "MoveOrCopy t (?bo, 0) dist (?nb, 0) w2 = (Inr (), w3)" by simp
  from MoveOrCopy_Inr[OF s3' ne]
  have h3a: "\<And>k. k < dist \<Longrightarrow> slot_at w3 (?nb, k) = slot_at w2 (?bo, k)"
    and h3b: "\<And>qb qi. \<not> (qb = ?nb \<and> qi < dist) \<and> qb \<noteq> ?bo \<Longrightarrow> slot_at w3 (qb, qi) = slot_at w2 (qb, qi)"
    and h3c: "\<And>qi. \<not> qi < dist \<Longrightarrow> slot_at w3 (?bo, qi) = slot_at w2 (?bo, qi)"
    and t3: "trace w3 = trace w2 @
        map (\<lambda>k. if nothrow_move_constructible t \<or> \<not> copy_constructible t
                  then MoveCtor (?nb, k) else CopyCtor (?nb, k)) [0..<dist]"
    and f3: "fresh w3 = fresh w2"
    by auto
  from s4 buf have s4': "MoveOrCopy t (?bo, dist) (vsize v - dist) (?nb, dist + 1) w3 = (Inr (), w4)" by simp
  from MoveOrCopy_Inr[OF s4' ne]
  have h4a: "\<And>k. k < vsize v - dist \<Longrightarrow> slot_at w4 (?nb, dist + 1 + k) = slot_at w3 (?bo, dist + k)"
    and h4b: "\<And>qb qi. \<not> (qb = ?nb \<and> dist + 1 \<le> qi \<and> qi < dist + 1 + (vsize v - dist)) \<and> qb \<noteq> ?bo
                \<Longrightarrow> slot_at w4 (qb, qi) = slot_at w3 (qb, qi)"
    and t4: "trace w4 = trace w3 @
        map (\<lambda>k. if nothrow_move_constructible t \<or> \<not> copy_constructible t
                  then MoveCtor (?nb, dist + 1 + k) else CopyCtor (?nb, dist + 1 + k)) [0..<vsize v - dist]"
    and f4: "fresh w4 = fresh w3"
    by auto
  from destroy_n_Inr[OF s5]
  have h5: "\<And>qb qi. qb \<noteq> ?bo \<Longrightarrow> slot_at w5 (qb, qi) = slot_at w4 (qb, qi)"
    and t5: "trace w5 = trace w4 @ map (\<lambda>k. Dtor (?bo, k)) [0..<vsize v]"
    and f5: "fresh w5 = fresh w4"
    by auto
  from Deallocate_Inr[OF s6]
  have h6: "\<And>qb qi. slot_at w' (qb, qi) = (if qb = ?bo then None else slot_at w5 (qb, qi))"
    and t6: "trace w' = trace w5" and f6: "fresh w' = fresh w5"
    by auto
  have nb: "slot_at w' (?nb, k) = slot_at w4 (?nb, k)" for k
    using ne h6 h5 by (simp add: eq_commute[of ?bo])
  have c1: "v' = \<lparr>data = \<lparr>buffer = ?nb, capacity = max 1 (2 * vsize v)\<rparr>, vsize = vsize v + 1\<rparr>"
    using v' buf n(2) by simp
  have c2: "r = (?nb, dist)" using r buf by simp
  have c3: "slot_at w' (?nb, dist) = Some (Obj x)"
    using ne nb h4b[of ?nb dist] h3b[of ?nb dist] h2 by (simp add: eq_commute[of ?bo])
  have c4: "slot_at w' (?nb, k) = slot_at w (?bo, k)" if "k < dist" for k
    using that ne nb h4b[of ?nb k] h3a[of k] h2 h1 by (simp add: eq_commute[of ?bo])
  have c5: "slot_at w' (?nb, Suc k) = slot_at w (?bo, k)" if "dist \<le> k \<and> k < vsize v" for k
  proof -
    from that have "k - dist < vsize v - dist" and e: "dist + (k - dist) = k" by auto
    from h4a[OF this(1)] e have "slot_at w4 (?nb, Suc k) = slot_at w3 (?bo, k)" by simp
    also have "\<dots> = slot_at w2 (?bo, k)" using that h3c[of k] by simp
    also have "\<dots> = slot_at w (?bo, k)" using ne h2 h1 by simp
    finally show ?thesis using nb by simp
  qed
  have c6: "slot_at w' (?nb, k) = Some Raw" if "vsize v < k \<and> k < block_slots t (max 1 (2 * vsize v))" for k
    using that dist ne nb h4b[of ?nb k] h3b[of ?nb k] h2 h1 n(2) by (simp add: eq_commute[of ?bo])
  have c7: "slot_at w' (qb, qi) = slot_at w (qb, qi)" if "qb \<noteq> ?nb \<and> qb \<noteq> ?bo" for qb qi
    using that h6 h5 h4b h3b h2 h1 by simp
  have c8: "slot_at w' (?bo, qi) = None" for qi
    using h6 by simp
  have c9: "trace w' = trace w @ ctor_event a (?nb, dist)
            # map (\<lambda>k. if nothrow_move_constructible t \<or> \<not> copy_constructible t
                        then MoveCtor (?nb, k) else CopyCtor (?nb, k)) [0..<dist]
            @ map (\<lambda>k. if nothrow_move_constructible t \<or> \<not> copy_constructible t
                        then MoveCtor (?nb, dist + 1 + k) else CopyCtor (?nb, dist + 1 + k))
                [0..<vsize v - dist]
            @ map (\<lambda>k. Dtor (?bo, k)) [0..<vsize v]"
    using t1 t2 t3 t4 t5 t6 by simp
  have c10: "fresh w' = Suc (fresh w)" using f1 f2 f3 f4 f5 f6 by simp
  show ?thesis using c1 c2 c3 xr c4 c5 c6 c7 c8 c9 c10 by blast
qed

lemma insert_elements:
  assumes sz: "vsize v' = Suc (vsize v)" and dist: "dist \<le> vsize v"
    and new: "slot_at w' (buffer (data v'), dist) = Some (Obj x)"
    and low: "\<forall>k<dist. slot_at w' (buffer (data v'), k) = slot_at w (buffer (data v), k)"
    and high: "\<forall>k. dist \<le> k \<and> k < vsize v \<longrightarrow>
                 slot_at w' (buffer (data v'), Suc k) = slot_at w (buffer (data v), k)"
  shows "elements v' w' = take dist (elements v w) @ Some x # drop dist (elements v w)"
proof (rule nth_equalityI)
  show "length (elements v' w') = length (take dist (elements v w) @ Some x # drop dist (elements v w))"
    using sz dist by (simp add: elements_eq_nth)
next
  fix k assume "k < length (elements v' w')"
  then have k: "k < vsize v'" by (simp add: elements_eq_nth)
  then have lhs: "elements v' w' ! k = value_at w' (buffer (data v'), k)"
    by (rule elements_eq_nth)
  consider "k < dist" | "k = dist" | "dist < k" by arith
  then show "elements v' w' ! k = (take dist (elements v w) @ Some x # drop dist (elements v w)) ! k"
  proof cases
    case 1
    then have "(take dist (elements v w) @ Some x # drop dist (elements v w)) ! k
        = value_at w (buffer (data v), k)"
      using dist by (simp add: nth_append elements_eq_nth)
    then show ?thesis using 1 lhs low by (simp add: value_at_def)
  next
    case 2
    then have "(take dist (elements v w) @ Some x # drop dist (elements v w)) ! k = Some x"
      using dist by (simp add: nth_append elements_eq_nth)
    then show ?thesis using 2 lhs new by (simp add: value_at_def)
  next
    case 3
    then obtain j where j: "k = Suc j" "dist \<le> j" "j < vsize v" using k sz by (cases k) auto
    then have "slot_at w' (buffer (data v'), Suc j) = slot_at w (buffer (data v), j)"
      using high by blast
    moreover have "(take dist (elements v w) @ Some x # drop dist (elements v w)) ! k
        = value_at w (buffer (data v), j)"
      using j dist by (simp add: nth_append elements_eq_nth Suc_diff_le)
    ultimately show ?thesis using j lhs by (simp add: value_at_def)
  qed
qed

lemma Emplace_shift_steps:
  assumes "Emplace_shift t dist a v w = (Inr u, w')" "dist < vsize v"
  obtains temp w1 w2 w3 w4 where
    "new_T t a w = (Inr temp, w1)"
    "construct_move t (buffer (data v), vsize v - 1) (buffer (data v), vsize v) w1 = (Inr (), w2)"
    "move_backward_loop t (vsize v - 1 - dist) (buffer (data v), vsize v - 1) (buffer (data v), vsize v) w2 = (Inr (), w3)"
    "destroy_at (buffer (data v), dist) w3 = (Inr (), w4)"
    "assign_move t temp (buffer (data v), dist) w4 = (Inr (), w')"
  using assms
  by (auto simp: Emplace_shift_def vbegin_def vend_def GetAddress_def std_move_backward_def raw_index_def
      elim!: bind_InrE at_address_InrE split: if_splits)

lemma Emplace_shift_Inr:
  assumes run: "Emplace_shift t dist a v w = (Inr u, w')"
    and wf: "well_formed v w"
    and dist: "dist < vsize v"
    and am: "moved_slot a = None"
    and ar: "\<forall>p. a = ByConstRef (Inside p) \<longrightarrow> fst p \<noteq> Some (fresh w)"
  shows "(\<exists>x. referent w a = Some x \<and> slot_at w' (buffer (data v), dist) = Some (Obj x))
       \<and> (\<forall>k<dist. slot_at w' (buffer (data v), k) = slot_at w (buffer (data v), k))
       \<and> (\<forall>k. dist \<le> k \<and> k < vsize v \<longrightarrow> slot_at w' (buffer (data v), Suc k) = slot_at w (buffer (data v), k))
       \<and> (\<forall>k. vsize v < k \<longrightarrow> slot_at w' (buffer (data v), k) = slot_at w (buffer (data v), k))
       \<and> (\<forall>qb qi. qb \<noteq> Some (fresh w) \<and> qb \<noteq> buffer (data v) \<longrightarrow> slot_at w' (qb, qi) = slot_at w (qb, qi))
       \<and> trace w' = trace w @ [ctor_event a (Some (fresh w), 0), MoveCtor (buffer (data v), vsize v)]
            @ map (\<lambda>k. MoveAssign (buffer (data v), vsize v - 1 - k)) [0..<vsize v - 1 - dist]
            @ [Dtor (buffer (data v), dist), MoveAssign (buffer (data v), dist)]
       \<and> fresh w' = Suc (fresh w)"
proof -
  let ?bo = "buffer (data v)"
  let ?tb = "Some (fresh w)"
  let ?m = "vsize v - 1 - dist"
  have ne: "?bo \<noteq> ?tb" using wf by (rule well_formed_block_old)
  have vs: "vsize v - 1 = dist + ?m" "vsize v = Suc (dist + ?m)" using dist by auto
  from run dist obtain temp w1 w2 w3 w4 where
    s1: "new_T t a w = (Inr temp, w1)"
    and s2: "construct_move t (?bo, vsize v - 1) (?bo, vsize v) w1 = (Inr (), w2)"
    and s3: "move_backward_loop t ?m (?bo, vsize v - 1) (?bo, vsize v) w2 = (Inr (), w3)"
    and s4: "destroy_at (?bo, dist) w3 = (Inr (), w4)"
    and s5: "assign_move t temp (?bo, dist) w4 = (Inr (), w')"
    by (rule Emplace_shift_steps)
  from new_T_Inr[OF s1 am ar] obtain x where temp: "temp = (?tb, 0)"
    and xr: "referent w a = Some x"
    and h1t: "slot_at w1 (?tb, 0) = Some (Obj x)"
    and h1: "\<And>qb qi. qb \<noteq> ?tb \<Longrightarrow> slot_at w1 (qb, qi) = slot_at w (qb, qi)"
    and t1: "trace w1 = trace w @ [ctor_event a (?tb, 0)]" and f1: "fresh w1 = Suc (fresh w)"
    by blast
  from s2 obtain y where y: "slot_at w1 (?bo, vsize v - 1) = Some (Obj y)"
    and d2: "slot_at w1 (?bo, vsize v) \<noteq> None"
    and w2: "w2 = log_event (MoveCtor (?bo, vsize v))
               (put_slot (?bo, vsize v) (Obj y) (put_slot (?bo, vsize v - 1) (Obj (moved_from t y)) w1))"
    by (rule construct_move_InrE)
  have h2: "slot_at w2 (qb, qi) =
      (if (qb, qi) = (?bo, vsize v) then Some (Obj y)
       else if (qb, qi) = (?bo, vsize v - 1) then Some (Obj (moved_from t y)) else slot_at w1 (qb, qi))" for qb qi
    using d2 y unfolding w2 by auto
  have t2: "trace w2 = trace w1 @ [MoveCtor (?bo, vsize v)]" and f2: "fresh w2 = fresh w1"
    unfolding w2 by simp_all
  from s3 vs have s3': "move_backward_loop t ?m (?bo, dist + ?m) (?bo, Suc (dist + ?m)) w2 = (Inr (), w3)"
    by simp
  from move_backward_loop_Inr[OF s3']
  have h3a: "\<And>k. k < ?m \<Longrightarrow> slot_at w3 (?bo, Suc (dist + k)) = slot_at w2 (?bo, dist + k)"
    and h3h: "0 < ?m \<Longrightarrow> slot_at w3 (?bo, dist) = map_option (husk t) (slot_at w2 (?bo, dist))"
    and h3b: "\<And>qb qi. \<not> (qb = ?bo \<and> dist \<le> qi \<and> qi < Suc (dist + ?m)) \<Longrightarrow> slot_at w3 (qb, qi) = slot_at w2 (qb, qi)"
    and h3z: "?m = 0 \<Longrightarrow> slot_at w3 (?bo, dist) = slot_at w2 (?bo, dist)"
    and t3: "trace w3 = trace w2 @ map (\<lambda>k. MoveAssign (?bo, dist + ?m - k)) [0..<?m]"
    and f3: "fresh w3 = fresh w2"
    by blast+
  from s4 obtain z where z: "slot_at w3 (?bo, dist) = Some (Obj z)"
    and w4: "w4 = log_event (Dtor (?bo, dist)) (put_slot (?bo, dist) Raw w3)"
    by (rule destroy_at_InrE)
  have h4: "slot_at w4 (qb, qi) = (if (qb, qi) = (?bo, dist) then Some Raw else slot_at w3 (qb, qi))" for qb qi
    using z unfolding w4 by auto
  have t4: "trace w4 = trace w3 @ [Dtor (?bo, dist)]" and f4: "fresh w4 = fresh w3"
    unfolding w4 by simp_all
  from s5 temp obtain x' where x': "slot_at w4 (?tb, 0) = Some (Obj x')"
    and w': "w' = log_event (MoveAssign (?bo, dist))
               (put_slot (?bo, dist) (Obj x') (put_slot (?tb, 0) (Obj (moved_from t x')) w4))"
    by (auto elim: assign_move_InrE)
  have "slot_at w4 (?tb, 0) = Some (Obj x)"
    using ne h4 h3b[of ?tb 0] h2 h1t by (simp add: eq_commute[of ?bo])
  with x' have xx: "x' = x" by simp
  have h5: "slot_at w' (qb, qi) =
      (if (qb, qi) = (?bo, dist) then Some (Obj x)
       else if (qb, qi) = (?tb, 0) then Some (Obj (moved_from t x)) else slot_at w4 (qb, qi))" for qb qi
    using x' xx h4[of ?bo dist] unfolding w' by auto
  have t5: "trace w' = trace w4 @ [MoveAssign (?bo, dist)]" and f5: "fresh w' = fresh w4"
    unfolding w' by simp_all
  have c1: "slot_at w' (?bo, dist) = Some (Obj x)" using h5 by simp
  have c2: "slot_at w' (?bo, k) = slot_at w (?bo, k)" if "k < dist" for k
    using that ne dist h5 h4 h3b[of ?bo k] h2 h1 by auto
  have c3: "slot_at w' (?bo, Suc k) = slot_at w (?bo, k)" if "dist \<le> k \<and> k < vsize v" for k
  proof (cases "k = vsize v - 1")
    case True
    then have "Suc k = vsize v" using dist by simp
    then have "slot_at w' (?bo, Suc k) = slot_at w2 (?bo, vsize v)"
      using that ne h5 h4 h3b[of ?bo "vsize v"] vs by auto
    then show ?thesis using True y ne h2 h1 by simp
  next
    case False
    with that have "k - dist < ?m" and e: "dist + (k - dist) = k" by auto
    from h3a[OF this(1)] e have "slot_at w3 (?bo, Suc k) = slot_at w2 (?bo, k)" by simp
    also have "\<dots> = slot_at w (?bo, k)" using that False ne h2 h1 by auto
    finally show ?thesis using that ne h5 h4 by auto
  qed
  have c4: "slot_at w' (?bo, k) = slot_at w (?bo, k)" if "vsize v < k" for k
    using that ne dist h5 h4 h3b[of ?bo k] h2 h1 vs by auto
  have c5: "slot_at w' (qb, qi) = slot_at w (qb, qi)" if "qb \<noteq> ?tb \<and> qb \<noteq> ?bo" for qb qi
    using that h5 h4 h3b h2 h1 by simp
  have c6: "trace w' = trace w @ [ctor_event a (?tb, 0), MoveCtor (?bo, vsize v)]
            @ map (\<lambda>k. MoveAssign (?bo, vsize v - 1 - k)) [0..<?m]
            @ [Dtor (?bo, dist), MoveAssign (?bo, dist)]"
    using t1 t2 t3 t4 t5 vs(1) by simp
  have c7: "fresh w' = Suc (fresh w)" using f1 f2 f3 f4 f5 by simp
  show ?thesis using xr c1 c2 c3 c4 c5 c6 c7 by blast
qed

lemma Emplace_Inr:
  assumes run: "Emplace t (buffer (data v), dist) a v w = (Inr r, v', w')"
    and wf: "well_formed v w"
    and dist: "dist \<le> vsize v"
    and am: "moved_slot a = None"
    and ar: "\<forall>p. a = ByConstRef (Inside p) \<longrightarrow> fst p \<noteq> Some (fresh w)"
  shows "vsize v' = vsize v + 1
       \<and> r = (buffer (data v'), dist)
       \<and> (\<exists>x. referent w a = Some x
             \<and> elements v' w' = take dist (elements v w) @ Some x # drop dist (elements v w)
             \<and> value_at w' r = Some x)
       \<and> capacity (data v') =
           (if vsize v = capacity (data v) then max 1 (2 * vsize v) else capacity (data v))"
proof -
  consider (grow) "vsize v = capacity (data v)"
    | (atend) "vsize v \<noteq> capacity (data v)" "dist = vsize v"
    | (shift) "vsize v \<noteq> capacity (data v)" "dist < vsize v"
    using dist by arith
  then show ?thesis
  proof cases
    case grow
    with run dist have g: "Emplace_grow t dist a v w = (Inr r, v', w')"
      by (simp add: Emplace_def vbegin_def vend_def GetAddress_def Capacity_def Capacity_raw_def)
    from Emplace_grow_Inr[OF g wf dist am ar] obtain x where
      v': "v' = \<lparr>data = \<lparr>buffer = Some (fresh w), capacity = max 1 (2 * vsize v)\<rparr>, vsize = vsize v + 1\<rparr>"
      and r: "r = (Some (fresh w), dist)"
      and x: "referent w a = Some x" "slot_at w' (Some (fresh w), dist) = Some (Obj x)"
      and low: "\<forall>k<dist. slot_at w' (Some (fresh w), k) = slot_at w (buffer (data v), k)"
      and high: "\<forall>k. dist \<le> k \<and> k < vsize v \<longrightarrow> slot_at w' (Some (fresh w), Suc k) = slot_at w (buffer (data v), k)"
      by blast
    have "elements v' w' = take dist (elements v w) @ Some x # drop dist (elements v w)"
      using dist x(2) low high by (intro insert_elements) (simp_all add: v')
    with v' r x grow show ?thesis by simp
  next
    case atend
    let ?c = "construct_from t a (buffer (data v), vsize v) w"
    obtain rc w1 where s: "?c = (rc, w1)" by (cases ?c)
    from run atend s have rc: "rc = Inr ()" and e: "r = (buffer (data v), vsize v)"
        "v' = v\<lparr>vsize := vsize v + 1\<rparr>" "w' = w1"
      by (cases rc; simp add: Emplace_def vbegin_def vend_def GetAddress_def Capacity_def Capacity_raw_def)+
    from s rc e have c: "construct_from t a (buffer (data v), vsize v) w = (Inr (), w')" by simp
    from construct_from_Inr[OF c am] obtain x where x: "referent w a = Some x"
      and h: "\<And>q. slot_at w' q = (if q = (buffer (data v), vsize v) then Some (Obj x) else slot_at w q)"
      by blast
    have "elements v' w' = take dist (elements v w) @ Some x # drop dist (elements v w)"
      using atend h by (intro insert_elements) (auto simp: e)
    with e x atend h show ?thesis by simp
  next
    case shift
    let ?c = "Emplace_shift t dist a v w"
    obtain rc w1 where s: "?c = (rc, w1)" by (cases ?c)
    from run shift s have rc: "rc = Inr ()" and e: "r = (buffer (data v), dist)"
        "v' = v\<lparr>vsize := vsize v + 1\<rparr>" "w' = w1"
      by (cases rc; simp add: Emplace_def vbegin_def vend_def GetAddress_def Capacity_def Capacity_raw_def)+
    from s rc e have c: "Emplace_shift t dist a v w = (Inr (), w')" by simp
    from Emplace_shift_Inr[OF c wf shift(2) am ar] obtain x where
      x: "referent w a = Some x" "slot_at w' (buffer (data v), dist) = Some (Obj x)"
      and low: "\<forall>k<dist. slot_at w' (buffer (data v), k) = slot_at w (buffer (data v), k)"
      and high: "\<forall>k. dist \<le> k \<and> k < vsize v \<longrightarrow> slot_at w' (buffer (data v), Suc k) = slot_at w (buffer (data v), k)"
      by blast
    have "elements v' w' = take dist (elements v w) @ Some x # drop dist (elements v w)"
      using dist x(2) low high by (intro insert_elements) (simp_all add: e)
    with e x shift show ?thesis by simp
  qed
qed

lemma new_events_append [simp]: "trace w' = trace w @ evs \<Longrightarrow> new_events w w' = evs"
  by (simp add: new_events_def)

lemma PushBack_copy_InrE:
  assumes "PushBack_copy t val v w = (Inr u, v', w')"
  obtains r where "EmplaceBack t (ByConstRef val) v w = (Inr r, v', w')"
  using assms by (auto simp: PushBack_copy_def split: prod.splits sum.splits)

section \<open>How the operations change the capacity\<close>

text \<open>
  The capacity a call leaves the vector with, whatever the outcome of the call, and the
  capacity after a call that returns.
\<close>

lemma RawMemory_ctor_capacity:
  "RawMemory_ctor t n w = (Inr buf, w') \<Longrightarrow>
     capacity buf = n \<and> buffer buf = (if n = 0 then None else Some (fresh w))"
  by (auto simp: RawMemory_ctor_def Allocate_def operator_new_def split: if_splits prod.splits sum.splits)

lemma Reserve_capacity:
  assumes "Reserve t n v w = (r, v', w')"
  shows "capacity (data v) \<le> capacity (data v') \<and> vsize v' = vsize v
       \<and> (r = Inr () \<longrightarrow> capacity (data v') = max n (capacity (data v)))"
proof (cases "n \<le> capacity (data v)")
  case True
  with assms show ?thesis by (auto simp: Reserve_def Capacity_raw_def)
next
  case False
  obtain rb w1 where rc: "RawMemory_ctor t n w = (rb, w1)" by (cases "RawMemory_ctor t n w")
  show ?thesis
  proof (cases rb)
    case (Inl e)
    with assms False rc show ?thesis by (auto simp: Reserve_def Capacity_raw_def)
  next
    case (Inr buf)
    from RawMemory_ctor_capacity rc Inr have cb: "capacity buf = n" by blast
    obtain rm w2 where ms: "MoveOrCopyAndSwap t (data v) (vsize v) buf w1 = (rm, w2)"
      by (cases "MoveOrCopyAndSwap t (data v) (vsize v) buf w1")
    show ?thesis
    proof (cases rm)
      case (Inl e)
      with assms False rc Inr ms show ?thesis
        by (auto simp: Reserve_def Capacity_raw_def at_scope_exit_def split: prod.splits sum.splits if_splits)
    next
      case (Inr db)
      obtain d b where db: "db = (d, b)" by (cases db)
      from ms Inr db have "d = \<lparr>buffer = buffer buf, capacity = capacity buf\<rparr>"
        by (auto elim: MoveOrCopyAndSwap_InrE)
      with assms False rc \<open>rb = Inr buf\<close> ms Inr db cb show ?thesis
        by (auto simp: Reserve_def Capacity_raw_def at_scope_exit_def split: prod.splits sum.splits if_splits)
    qed
  qed
qed

lemma Resize_capacity:
  assumes "Resize t n v w = (r, v', w')"
  shows "capacity (data v) \<le> capacity (data v')"
proof -
  consider "n = vsize v" | "n > vsize v" "n > capacity (data v)" | "n > vsize v" "n \<le> capacity (data v)"
    | "n < vsize v" by arith
  then show ?thesis
  proof cases
    case 1
    with assms show ?thesis by (simp add: Resize_def)
  next
    case 2
    obtain r1 v1 w1 where rs: "Reserve t n v w = (r1, v1, w1)" by (rule prod_cases3)
    from Reserve_capacity[OF rs] have "capacity (data v) \<le> capacity (data v1)" by simp
    with assms 2 rs show ?thesis
      by (cases r1) (auto simp: Resize_def Capacity_def Capacity_raw_def split: prod.splits sum.splits)
  next
    case 3
    with assms show ?thesis
      by (auto simp: Resize_def Capacity_def Capacity_raw_def split: prod.splits sum.splits)
  next
    case 4
    with assms show ?thesis
      by (auto simp: Resize_def Capacity_def Capacity_raw_def split: prod.splits sum.splits)
  qed
qed

lemma EmplaceBack_return_capacity:
  "EmplaceBack_return v w = (r, v', w') \<Longrightarrow> data v' = data v"
  by (auto simp: EmplaceBack_return_def split: sum.splits)

lemma EmplaceBack_capacity:
  assumes "EmplaceBack t a v w = (r, v', w')"
  shows "capacity (data v) \<le> capacity (data v')"
proof (cases "vsize v = capacity (data v)")
  case False
  with assms show ?thesis
    by (auto simp: EmplaceBack_def Capacity_def Capacity_raw_def
        dest: EmplaceBack_return_capacity split: prod.splits sum.splits)
next
  case True
  let ?n = "if vsize v = 0 then 1 else vsize v * 2"
  obtain rb w1 where rc: "RawMemory_ctor t ?n w = (rb, w1)" by (cases "RawMemory_ctor t ?n w")
  show ?thesis
  proof (cases rb)
    case (Inl e)
    with assms True rc show ?thesis by (auto simp: EmplaceBack_def Capacity_def Capacity_raw_def)
  next
    case (Inr buf)
    from RawMemory_ctor_capacity rc Inr have cb: "capacity buf = ?n" by blast
    let ?body = "bind (at_address (raw_index buf (vsize v)) (construct_from t a))
                 (\<lambda>_. MoveOrCopyAndSwap t (data v) (vsize v) buf)"
    obtain rm w2 where bd: "?body w1 = (rm, w2)" by (cases "?body w1")
    show ?thesis
    proof (cases rm)
      case (Inl e)
      with assms True rc \<open>rb = Inr buf\<close> bd show ?thesis
        by (auto simp: EmplaceBack_def Capacity_def Capacity_raw_def at_scope_exit_def
            split: prod.splits sum.splits if_splits)
    next
      case (Inr db)
      obtain d b where db: "db = (d, b)" by (cases db)
      from bd Inr db have "d = \<lparr>buffer = buffer buf, capacity = capacity buf\<rparr>"
        by (auto elim!: bind_InrE MoveOrCopyAndSwap_InrE)
      with cb True have "capacity (data v) \<le> capacity d" by auto
      with assms True rc \<open>rb = Inr buf\<close> bd Inr db show ?thesis
        by (auto simp: EmplaceBack_def Capacity_def Capacity_raw_def
            dest!: EmplaceBack_return_capacity split: prod.splits sum.splits)
    qed
  qed
qed

lemma PopBack_capacity:
  "PopBack v w = (r, v', w') \<Longrightarrow> capacity (data v) \<le> capacity (data v')"
  by (auto simp: PopBack_def split: prod.splits sum.splits if_splits)

lemma Erase_capacity:
  "Erase t pos v w = (r, v', w') \<Longrightarrow> capacity (data v) \<le> capacity (data v')"
  by (auto simp: Erase_def split: prod.splits sum.splits if_splits)

lemma Emplace_grow_capacity:
  assumes "Emplace_grow t dist a v w = (r, v', w')" "vsize v = capacity (data v)"
  shows "capacity (data v) \<le> capacity (data v')"
proof -
  let ?n = "if vsize v = 0 then 1 else vsize v * 2"
  obtain rb w1 where rc: "RawMemory_ctor t ?n w = (rb, w1)" by (cases "RawMemory_ctor t ?n w")
  show ?thesis
  proof (cases rb)
    case (Inl e)
    with assms rc show ?thesis by (auto simp: Emplace_grow_def)
  next
    case (Inr buf)
    from RawMemory_ctor_capacity rc Inr have cb: "capacity buf = ?n" by blast
    then have "capacity (data v) \<le> capacity buf" using assms(2) by auto
    with assms rc Inr show ?thesis
      by (auto simp: Emplace_grow_def at_scope_exit_def RawMemory_Swap_def
          split: prod.splits sum.splits if_splits)
  qed
qed

lemma Emplace_capacity:
  assumes "Emplace t pos a v w = (r, v', w')"
  shows "capacity (data v) \<le> capacity (data v')"
proof (cases "vsize v = capacity (data v)")
  case True
  with assms show ?thesis
    by (auto simp: Emplace_def Capacity_def Capacity_raw_def dest: Emplace_grow_capacity
        split: if_splits)
next
  case False
  with assms show ?thesis
    by (auto simp: Emplace_def Capacity_def Capacity_raw_def split: if_splits prod.splits sum.splits)
qed

lemma copy_assign_capacity:
  assumes "copy_assign t this rhs vs w = (r, vs', w')"
  shows "capacity (data (vs this)) \<le> capacity (data (vs' this)) \<and> (\<forall>c. c \<noteq> this \<longrightarrow> vs' c = vs c)"
proof -
  consider "this = rhs" | "this \<noteq> rhs" "vsize (vs rhs) > capacity (data (vs this))"
    | "this \<noteq> rhs" "\<not> vsize (vs rhs) > capacity (data (vs this))" by blast
  then show ?thesis
  proof cases
    case 1
    with assms show ?thesis by (simp add: copy_assign_def)
  next
    case 2
    obtain rt w1 where cc: "Vector_copy_ctor t (vs rhs) w = (rt, w1)" by (cases "Vector_copy_ctor t (vs rhs) w")
    show ?thesis
    proof (cases rt)
      case (Inl e)
      with assms 2 cc show ?thesis by (auto simp: copy_assign_def Capacity_raw_def)
    next
      case (Inr temp)
      with cc have "capacity (data temp) = vsize (vs rhs)"
        by (auto simp: Vector_copy_ctor_def Size_def dest: RawMemory_ctor_capacity
            split: prod.splits sum.splits)
      with assms 2 cc Inr show ?thesis
        by (auto simp: copy_assign_def Capacity_raw_def Vector_Swap_def RawMemory_Swap_def
            split: prod.splits)
    qed
  next
    case 3
    with assms show ?thesis
      by (auto simp: copy_assign_def Capacity_raw_def CopyToFilledVector_def split: prod.splits sum.splits)
  qed
qed

lemma EmplaceBack_capacity_Inr:
  assumes "EmplaceBack t a v w = (Inr p, v', w')"
  shows "capacity (data v') = (if vsize v = capacity (data v) then max 1 (2 * vsize v) else capacity (data v))
       \<and> (vsize v = capacity (data v) \<longrightarrow> buffer (data v') = Some (fresh w))"
proof (cases "vsize v = capacity (data v)")
  case True
  from assms True obtain buf w1 where
    "RawMemory_ctor t (if vsize v = 0 then 1 else vsize v * 2) w = (Inr buf, w1)"
    "v' = \<lparr>data = \<lparr>buffer = buffer buf, capacity = capacity buf\<rparr>, vsize = vsize v + 1\<rparr>"
    by (rule EmplaceBack_grow_steps)
  with RawMemory_ctor_capacity[OF this(1)] True show ?thesis by auto
next
  case False
  with assms show ?thesis
    by (auto simp: EmplaceBack_def Capacity_def Capacity_raw_def
        dest: EmplaceBack_return_capacity split: prod.splits sum.splits)
qed

lemma Emplace_capacity_Inr:
  assumes "Emplace t pos a v w = (Inr p, v', w')"
  shows "capacity (data v') = (if vsize v = capacity (data v) then max 1 (2 * vsize v) else capacity (data v))
       \<and> (vsize v = capacity (data v) \<longrightarrow> buffer (data v') = Some (fresh w))"
proof (cases "vsize v = capacity (data v)")
  case True
  with assms have "Emplace_grow t (snd pos - snd (vbegin v)) a v w = (Inr p, v', w')"
    by (auto simp: Emplace_def Capacity_def Capacity_raw_def split: if_splits)
  then obtain buf w1 where
    "RawMemory_ctor t (if vsize v = 0 then 1 else vsize v * 2) w = (Inr buf, w1)"
    "v' = \<lparr>data = \<lparr>buffer = buffer buf, capacity = capacity buf\<rparr>, vsize = vsize v + 1\<rparr>"
    by (rule Emplace_grow_steps)
  with RawMemory_ctor_capacity[OF this(1)] True show ?thesis by auto
next
  case False
  with assms show ?thesis
    by (auto simp: Emplace_def Capacity_def Capacity_raw_def split: if_splits prod.splits sum.splits)
qed

section \<open>\<^verbatim>\<open>Reserve\<close> and \<^verbatim>\<open>Resize\<close>, step by step\<close>

text \<open>
  A run of \<^verbatim>\<open>Reserve\<close> or \<^verbatim>\<open>Resize\<close> that returns, described by the slots it leaves behind and
  by the events it logs.
\<close>

lemma Reserve_steps:
  assumes "Reserve t n v w = (Inr u, v', w')" "capacity (data v) < n"
  obtains buf w1 w2 w3 where
    "RawMemory_ctor t n w = (Inr buf, w1)"
    "MoveOrCopy t (buffer (data v), 0) (vsize v) (buffer buf, 0) w1 = (Inr (), w2)"
    "destroy_n (buffer (data v), 0) (vsize v) w2 = (Inr (), w3)"
    "Deallocate (buffer (data v)) w3 = (Inr (), w')"
    "v' = v\<lparr>data := \<lparr>buffer = buffer buf, capacity = capacity buf\<rparr>\<rparr>"
proof -
  obtain rb w1 where rc: "RawMemory_ctor t n w = (rb, w1)" by (cases "RawMemory_ctor t n w")
  with assms obtain buf where rb: "rb = Inr buf"
    by (cases rb) (auto simp: Reserve_def Capacity_raw_def)
  obtain rm w3 where ms: "MoveOrCopyAndSwap t (data v) (vsize v) buf w1 = (rm, w3)"
    by (cases "MoveOrCopyAndSwap t (data v) (vsize v) buf w1")
  from assms rc rb ms obtain d b where rm: "rm = Inr (d, b)"
    by (cases rm) (auto simp: Reserve_def Capacity_raw_def at_scope_exit_def
        split: prod.splits sum.splits if_splits)
  from ms rm obtain w2 where mc: "MoveOrCopy t (buffer (data v), 0) (vsize v) (buffer buf, 0) w1 = (Inr (), w2)"
    and dn: "destroy_n (buffer (data v), 0) (vsize v) w2 = (Inr (), w3)"
    and d: "d = \<lparr>buffer = buffer buf, capacity = capacity buf\<rparr>"
    and b: "b = \<lparr>buffer = buffer (data v), capacity = capacity (data v)\<rparr>"
    by (auto elim: MoveOrCopyAndSwap_InrE)
  from assms rc rb ms rm b d have "Deallocate (buffer (data v)) w3 = (Inr (), w')"
    and "v' = v\<lparr>data := \<lparr>buffer = buffer buf, capacity = capacity buf\<rparr>\<rparr>"
    by (auto simp: Reserve_def Capacity_raw_def at_scope_exit_def RawMemory_dtor_def
        split: prod.splits sum.splits if_splits)
  with rc rb mc dn that show ?thesis by blast
qed

lemma Reserve_Inr:
  assumes run: "Reserve t n v w = (Inr u, v', w')"
    and wf: "well_formed v w"
    and grow: "capacity (data v) < n"
  shows "v' = v\<lparr>data := \<lparr>buffer = Some (fresh w), capacity = n\<rparr>\<rparr>
       \<and> (\<forall>k<vsize v. slot_at w' (Some (fresh w), k) = slot_at w (buffer (data v), k))
       \<and> (\<forall>k. vsize v \<le> k \<and> k < block_slots t n \<longrightarrow> slot_at w' (Some (fresh w), k) = Some Raw)
       \<and> (\<forall>qb qi. qb \<noteq> Some (fresh w) \<and> qb \<noteq> buffer (data v) \<longrightarrow> slot_at w' (qb, qi) = slot_at w (qb, qi))
       \<and> trace w' = trace w
            @ map (\<lambda>k. if nothrow_move_constructible t \<or> \<not> copy_constructible t
                        then MoveCtor (Some (fresh w), k) else CopyCtor (Some (fresh w), k)) [0..<vsize v]
            @ map (\<lambda>k. Dtor (buffer (data v), k)) [0..<vsize v]
       \<and> fresh w' = Suc (fresh w)"
proof -
  let ?bo = "buffer (data v)"
  let ?nb = "Some (fresh w)"
  have n: "0 < n" using grow by simp
  from run grow obtain buf w1 w2 w3 where
    s1: "RawMemory_ctor t n w = (Inr buf, w1)"
    and s2: "MoveOrCopy t (?bo, 0) (vsize v) (buffer buf, 0) w1 = (Inr (), w2)"
    and s3: "destroy_n (?bo, 0) (vsize v) w2 = (Inr (), w3)"
    and s4: "Deallocate ?bo w3 = (Inr (), w')"
    and v': "v' = v\<lparr>data := \<lparr>buffer = buffer buf, capacity = capacity buf\<rparr>\<rparr>"
    by (rule Reserve_steps)
  from RawMemory_ctor_Inr[OF s1 n] have buf: "buf = \<lparr>buffer = ?nb, capacity = n\<rparr>"
    and h1: "\<And>qb qi. slot_at w1 (qb, qi) =
        (if qb = ?nb then (if qi < block_slots t n then Some Raw else None) else slot_at w (qb, qi))"
    and t1: "trace w1 = trace w" and f1: "fresh w1 = Suc (fresh w)"
    by blast+
  have ne: "?bo \<noteq> ?nb" using wf by (rule well_formed_block_old)
  have le: "vsize v \<le> n" using wf grow by (simp add: well_formed_def)
  from s2 buf have s2': "MoveOrCopy t (?bo, 0) (vsize v) (?nb, 0) w1 = (Inr (), w2)" by simp
  from MoveOrCopy_Inr[OF s2' ne]
  have h2a: "\<And>k. k < vsize v \<Longrightarrow> slot_at w2 (?nb, k) = slot_at w1 (?bo, k)"
    and h2b: "\<And>qb qi. \<not> (qb = ?nb \<and> qi < vsize v) \<and> qb \<noteq> ?bo \<Longrightarrow> slot_at w2 (qb, qi) = slot_at w1 (qb, qi)"
    and t2: "trace w2 = trace w1 @
        map (\<lambda>k. if nothrow_move_constructible t \<or> \<not> copy_constructible t
                  then MoveCtor (?nb, k) else CopyCtor (?nb, k)) [0..<vsize v]"
    and f2: "fresh w2 = fresh w1"
    by auto
  from destroy_n_Inr[OF s3]
  have h3: "\<And>qb qi. qb \<noteq> ?bo \<Longrightarrow> slot_at w3 (qb, qi) = slot_at w2 (qb, qi)"
    and t3: "trace w3 = trace w2 @ map (\<lambda>k. Dtor (?bo, k)) [0..<vsize v]"
    and f3: "fresh w3 = fresh w2"
    by auto
  from Deallocate_Inr[OF s4]
  have h4: "\<And>qb qi. slot_at w' (qb, qi) = (if qb = ?bo then None else slot_at w3 (qb, qi))"
    and t4: "trace w' = trace w3" and f4: "fresh w' = fresh w3"
    by auto
  have c1: "v' = v\<lparr>data := \<lparr>buffer = ?nb, capacity = n\<rparr>\<rparr>" using v' buf by simp
  have c2: "slot_at w' (?nb, k) = slot_at w (?bo, k)" if "k < vsize v" for k
    using that ne h4 h3 h2a h1 by (simp add: eq_commute[of ?bo])
  have c3: "slot_at w' (?nb, k) = Some Raw" if "vsize v \<le> k \<and> k < block_slots t n" for k
    using that ne h4 h3 h2b[of ?nb k] h1 by (simp add: eq_commute[of ?bo])
  have c4: "slot_at w' (qb, qi) = slot_at w (qb, qi)" if "qb \<noteq> ?nb \<and> qb \<noteq> ?bo" for qb qi
    using that h4 h3 h2b h1 by simp
  have c5: "trace w' = trace w
            @ map (\<lambda>k. if nothrow_move_constructible t \<or> \<not> copy_constructible t
                        then MoveCtor (?nb, k) else CopyCtor (?nb, k)) [0..<vsize v]
            @ map (\<lambda>k. Dtor (?bo, k)) [0..<vsize v]"
    using t1 t2 t3 t4 by simp
  have c6: "fresh w' = Suc (fresh w)" using f1 f2 f3 f4 by simp
  show ?thesis using c1 c2 c3 c4 c5 c6 by blast
qed

lemma append_elements:
  assumes sz: "vsize v' = vsize v + m"
    and low: "\<forall>k<vsize v. slot_at w' (buffer (data v'), k) = slot_at w (buffer (data v), k)"
    and new: "\<forall>k<m. slot_at w' (buffer (data v'), vsize v + k) = Some (Obj x)"
  shows "elements v' w' = elements v w @ replicate m (Some x)"
proof (rule nth_equalityI)
  show "length (elements v' w') = length (elements v w @ replicate m (Some x))"
    using sz by (simp add: elements_eq_nth)
next
  fix k assume "k < length (elements v' w')"
  then have k: "k < vsize v'" by (simp add: elements_eq_nth)
  then have lhs: "elements v' w' ! k = value_at w' (buffer (data v'), k)"
    by (rule elements_eq_nth)
  show "elements v' w' ! k = (elements v w @ replicate m (Some x)) ! k"
  proof (cases "k < vsize v")
    case True
    then have "(elements v w @ replicate m (Some x)) ! k = value_at w (buffer (data v), k)"
      by (simp add: nth_append elements_eq_nth)
    then show ?thesis using True lhs low by (simp add: value_at_def)
  next
    case False
    with k sz have j: "k - vsize v < m" "vsize v + (k - vsize v) = k" by auto
    then have "slot_at w' (buffer (data v'), k) = Some (Obj x)" using new by metis
    moreover have "(elements v w @ replicate m (Some x)) ! k = Some x"
      using False j by (simp add: nth_append elements_eq_nth)
    ultimately show ?thesis using lhs by (simp add: value_at_def)
  qed
qed

lemma take_elements:
  assumes sz: "vsize v' = n" "n \<le> vsize v"
    and low: "\<forall>k<n. slot_at w' (buffer (data v'), k) = slot_at w (buffer (data v), k)"
  shows "elements v' w' = take n (elements v w)"
proof (rule nth_equalityI)
  show "length (elements v' w') = length (take n (elements v w))"
    using sz by (simp add: elements_eq_nth)
next
  fix k assume "k < length (elements v' w')"
  then have k: "k < n" using sz by (simp add: elements_eq_nth)
  then show "elements v' w' ! k = take n (elements v w) ! k"
    using sz low by (simp add: elements_eq_nth value_at_def)
qed

lemma filter_value_ctor_reloc [simp]:
  "filter is_value_ctor (map (\<lambda>k. if c then MoveCtor (f k) else CopyCtor (f k)) xs) = []"
  "filter is_value_ctor (map (\<lambda>k. Dtor (g k)) xs) = []"
  "filter is_value_ctor (map (\<lambda>k. ValueCtor (g k)) xs) = map (\<lambda>k. ValueCtor (g k)) xs"
  by (induction xs) auto

lemma value_construct_n_Inr:
  "uninitialized_value_construct_n t (b, i) n w = (Inr u, w') \<Longrightarrow>
     (\<forall>k<n. slot_at w' (b, i + k) = Some (Obj (default_value t)))
   \<and> (\<forall>qb qi. \<not> (qb = b \<and> i \<le> qi \<and> qi < i + n) \<longrightarrow> slot_at w' (qb, qi) = slot_at w (qb, qi))
   \<and> trace w' = trace w @ map (\<lambda>k. ValueCtor (b, i + k)) [0..<n]
   \<and> fresh w' = fresh w \<and> avail w' = avail w \<and> lost w' = lost w"
  unfolding uninitialized_value_construct_n_def by (rule uninitialized_value_construct_loop_Inr)

lemma Resize_grow_Inr:
  assumes run: "Resize t n v w = (Inr u, v', w')"
    and wf: "well_formed v w"
    and more: "vsize v < n"
  shows "vsize v' = n
       \<and> elements v' w' = elements v w @ replicate (n - vsize v) (Some (default_value t))
       \<and> filter is_value_ctor (new_events w w')
           = map (\<lambda>k. ValueCtor (buffer (data v'), vsize v + k)) [0..<n - vsize v]
       \<and> capacity (data v') = max n (capacity (data v))"
proof (cases "capacity (data v) < n")
  case True
  obtain r1 v1 w1 where rs: "Reserve t n v w = (r1, v1, w1)" by (rule prod_cases3)
  from run more True rs have r1: "r1 = Inr ()"
    by (cases r1) (auto simp: Resize_def Capacity_def Capacity_raw_def)
  let ?c = "uninitialized_value_construct_n t (buffer (data v1), vsize v1) (n - vsize v1) w1"
  obtain rc w2 where vc: "?c = (rc, w2)" by (cases ?c)
  from run more True rs r1 vc have rc: "rc = Inr ()" and e: "v' = v1\<lparr>vsize := n\<rparr>" "w' = w2"
    by (cases rc; simp add: Resize_def Capacity_def Capacity_raw_def GetAddress_def)+
  from rs r1 have rs': "Reserve t n v w = (Inr (), v1, w1)" by simp
  from Reserve_Inr[OF rs' wf True]
  have v1: "v1 = v\<lparr>data := \<lparr>buffer = Some (fresh w), capacity = n\<rparr>\<rparr>"
    and h1: "\<And>k. k < vsize v \<Longrightarrow> slot_at w1 (Some (fresh w), k) = slot_at w (buffer (data v), k)"
    and t1: "trace w1 = trace w
            @ map (\<lambda>k. if nothrow_move_constructible t \<or> \<not> copy_constructible t
                        then MoveCtor (Some (fresh w), k) else CopyCtor (Some (fresh w), k)) [0..<vsize v]
            @ map (\<lambda>k. Dtor (buffer (data v), k)) [0..<vsize v]"
    by blast+
  from vc rc e v1 have vc': "uninitialized_value_construct_n t (Some (fresh w), vsize v) (n - vsize v) w1 = (Inr (), w')"
    by simp
  from value_construct_n_Inr[OF vc']
  have h2a: "\<And>k. k < n - vsize v \<Longrightarrow> slot_at w' (Some (fresh w), vsize v + k) = Some (Obj (default_value t))"
    and h2b: "\<And>qb qi. \<not> (qb = Some (fresh w) \<and> vsize v \<le> qi \<and> qi < vsize v + (n - vsize v))
                \<Longrightarrow> slot_at w' (qb, qi) = slot_at w1 (qb, qi)"
    and t2: "trace w' = trace w1 @ map (\<lambda>k. ValueCtor (Some (fresh w), vsize v + k)) [0..<n - vsize v]"
    by blast+
  have els: "elements v' w' = elements v w @ replicate (n - vsize v) (Some (default_value t))"
    using more h1 h2a h2b by (intro append_elements) (simp_all add: e v1)
  have tr: "trace w' = trace w @
      (map (\<lambda>k. if nothrow_move_constructible t \<or> \<not> copy_constructible t
                        then MoveCtor (Some (fresh w), k) else CopyCtor (Some (fresh w), k)) [0..<vsize v]
       @ map (\<lambda>k. Dtor (buffer (data v), k)) [0..<vsize v]
       @ map (\<lambda>k. ValueCtor (Some (fresh w), vsize v + k)) [0..<n - vsize v])"
    using t1 t2 by simp
  have "filter is_value_ctor (new_events w w')
           = map (\<lambda>k. ValueCtor (buffer (data v'), vsize v + k)) [0..<n - vsize v]"
    unfolding new_events_append[OF tr] by (simp add: e v1)
  with els e v1 True show ?thesis by simp
next
  case False
  let ?c = "uninitialized_value_construct_n t (buffer (data v), vsize v) (n - vsize v) w"
  obtain rc w2 where vc: "?c = (rc, w2)" by (cases ?c)
  from run more False vc have rc: "rc = Inr ()" and e: "v' = v\<lparr>vsize := n\<rparr>" "w' = w2"
    by (cases rc; simp add: Resize_def Capacity_def Capacity_raw_def GetAddress_def)+
  from vc rc e have vc': "uninitialized_value_construct_n t (buffer (data v), vsize v) (n - vsize v) w = (Inr (), w')"
    by simp
  from value_construct_n_Inr[OF vc']
  have h2a: "\<And>k. k < n - vsize v \<Longrightarrow> slot_at w' (buffer (data v), vsize v + k) = Some (Obj (default_value t))"
    and h2b: "\<And>qb qi. \<not> (qb = buffer (data v) \<and> vsize v \<le> qi \<and> qi < vsize v + (n - vsize v))
                \<Longrightarrow> slot_at w' (qb, qi) = slot_at w (qb, qi)"
    and t2: "trace w' = trace w @ map (\<lambda>k. ValueCtor (buffer (data v), vsize v + k)) [0..<n - vsize v]"
    by blast+
  have els: "elements v' w' = elements v w @ replicate (n - vsize v) (Some (default_value t))"
    using more h2a h2b by (intro append_elements) (simp_all add: e)
  have "filter is_value_ctor (new_events w w')
           = map (\<lambda>k. ValueCtor (buffer (data v'), vsize v + k)) [0..<n - vsize v]"
    unfolding new_events_append[OF t2] by (simp add: e)
  with els e False show ?thesis by simp
qed

lemma Resize_shrink_Inr:
  assumes run: "Resize t n v w = (Inr u, v', w')"
    and less: "n < vsize v"
  shows "v' = v\<lparr>vsize := n\<rparr>
       \<and> elements v' w' = take n (elements v w)
       \<and> new_events w w' = map (\<lambda>k. Dtor (buffer (data v), n + k)) [0..<vsize v - n]
       \<and> (\<forall>k<vsize v - n. slot_at w' (buffer (data v), n + k) = Some Raw)
       \<and> (\<forall>qb qi. \<not> (qb = buffer (data v) \<and> n \<le> qi \<and> qi < vsize v) \<longrightarrow> slot_at w' (qb, qi) = slot_at w (qb, qi))"
proof -
  let ?c = "destroy_n (buffer (data v), n) (vsize v - n) w"
  obtain rc w2 where dn: "?c = (rc, w2)" by (cases ?c)
  from run less dn have rc: "rc = Inr ()" and e: "v' = v\<lparr>vsize := n\<rparr>" "w' = w2"
    by (cases rc; simp add: Resize_def GetAddress_def)+
  from dn rc e have dn': "destroy_n (buffer (data v), n) (vsize v - n) w = (Inr (), w')" by simp
  from destroy_n_Inr[OF dn']
  have h1: "\<And>k. k < vsize v - n \<Longrightarrow> slot_at w' (buffer (data v), n + k) = Some Raw"
    and h2: "\<And>qb qi. \<not> (qb = buffer (data v) \<and> n \<le> qi \<and> qi < n + (vsize v - n))
                \<Longrightarrow> slot_at w' (qb, qi) = slot_at w (qb, qi)"
    and t: "trace w' = trace w @ map (\<lambda>k. Dtor (buffer (data v), n + k)) [0..<vsize v - n]"
    by blast+
  have els: "elements v' w' = take n (elements v w)"
    using less h2 by (intro take_elements) (simp_all add: e)
  from less have "n + (vsize v - n) = vsize v" by simp
  with h2 have h2': "\<And>qb qi. \<not> (qb = buffer (data v) \<and> n \<le> qi \<and> qi < vsize v)
                \<Longrightarrow> slot_at w' (qb, qi) = slot_at w (qb, qi)" by simp
  show ?thesis using e els h1 h2' new_events_append[OF t] by blast
qed

section \<open>The example states\<close>

text \<open>The example states are states the container itself produces.\<close>

lemma examples_reachable:
  "(case PushBack_copy int_traits (Outside 1) Vector_default empty_world of (r1, v1, w1) \<Rightarrow>
    case PushBack_copy int_traits (Outside 2) v1 w1 of (r2, v2, w2) \<Rightarrow>
    case PushBack_copy int_traits (Outside 3) v2 w2 of (r3, v3, w3) \<Rightarrow>
      r3 = Inr () \<and> v3 = v123 \<and> heap w3 2 = heap w123 2 \<and> heap w3 0 = None \<and> heap w3 1 = None
      \<and> fresh w3 = fresh w123 \<and> avail w3 = avail w123 \<and> lost w3 = lost w123)
   \<and> (case PushBack_move fragile_traits (Outside 1) Vector_default empty_world of (r1, v1, w1) \<Rightarrow>
      case PushBack_move fragile_traits (Outside 2) v1 w1 of (r2, v2, w2) \<Rightarrow>
      r2 = Inr () \<and> v2 = v12 \<and> heap w2 1 = heap w12 1 \<and> heap w2 0 = None
      \<and> fresh w2 = fresh w12 \<and> avail w2 = avail w12 \<and> lost w2 = lost w12)
   \<and> (case PushBack_move move_only_traits (Outside 1) Vector_default empty_world of (r1, v1, w1) \<Rightarrow>
      case Resize move_only_traits 2 v1 w1 of (r2, v2, w2) \<Rightarrow>
      r2 = Inr () \<and> v2 = v12 \<and> heap w2 1 = heap w12 1 \<and> heap w2 0 = None
      \<and> fresh w2 = fresh w12 \<and> avail w2 = avail w12 \<and> lost w2 = lost w12)"
  by code_simp

section \<open>The events of a run, whatever its outcome\<close>

text \<open>
  Each primitive and each loop only adds events of its own kind to the log, also when
  it fails half way; so do the operations built from them.
\<close>

lemma logs_only_refl [simp]: "logs_only P w w"
  by (simp add: logs_only_def)

lemma logs_only_same: "trace w' = trace w \<Longrightarrow> logs_only P w w'"
  by (simp add: logs_only_def)

lemma logs_only_trans: "logs_only P w w1 \<Longrightarrow> logs_only P w1 w2 \<Longrightarrow> logs_only P w w2"
  by (auto simp: logs_only_def)

lemma logs_only_mono: "logs_only P w w' \<Longrightarrow> (\<And>e. P e \<Longrightarrow> Q e) \<Longrightarrow> logs_only Q w w'"
  by (auto simp: logs_only_def list_all_iff)

lemma logs_only_one: "P e \<Longrightarrow> logs_only P w (log_event e (put_slot q s w))"
  "P e \<Longrightarrow> logs_only P w (log_event e (put_slot q s (put_slot q' s' w)))"
  by (simp_all add: logs_only_def)

lemma construct_copy_logs: "construct_copy t src dst w = (r, w') \<Longrightarrow> logs_only is_copy_ctor w w'"
  by (auto simp: construct_copy_def logs_only_one split: option.splits slot.splits if_splits)

lemma construct_move_logs: "construct_move t src dst w = (r, w') \<Longrightarrow> logs_only is_move_ctor w w'"
  by (auto simp: construct_move_def logs_only_one split: option.splits slot.splits if_splits)

lemma destroy_at_logs: "destroy_at p w = (r, w') \<Longrightarrow> logs_only is_dtor w w'"
  by (auto simp: destroy_at_def logs_only_one split: option.splits slot.splits if_splits)

lemma assign_copy_logs: "assign_copy t src dst w = (r, w') \<Longrightarrow> logs_only is_copy_assign w w'"
  by (auto simp: assign_copy_def logs_only_one split: option.splits slot.splits if_splits)

lemma assign_move_logs: "assign_move t src dst w = (r, w') \<Longrightarrow> logs_only is_move_assign w w'"
  by (auto simp: assign_move_def logs_only_one split: option.splits slot.splits if_splits)

lemma destroy_n_logs: "destroy_n p n w = (r, w') \<Longrightarrow> logs_only is_dtor w w'"
proof (induction n arbitrary: p w)
  case 0
  then show ?case by simp
next
  case (Suc n)
  obtain r1 w1 where s: "destroy_at p w = (r1, w1)" by (cases "destroy_at p w")
  note l1 = destroy_at_logs[OF s]
  show ?case
  proof (cases r1)
    case (Inl e)
    with Suc.prems s l1 show ?thesis by simp
  next
    case (Inr u)
    with Suc.prems s have "destroy_n (ptr_add p 1) n w1 = (r, w')" by simp
    from l1 Suc.IH[OF this] show ?thesis by (rule logs_only_trans)
  qed
qed

lemma on_throw_destroy_logs:
  "on_throw (destroy_n p n) (r0, w1) = (r, w') \<Longrightarrow> logs_only is_dtor w1 w'"
  by (cases r0) (auto simp: on_throw_def dest: destroy_n_logs split: if_splits prod.splits sum.splits)

lemma uninitialized_copy_loop_logs:
  "uninitialized_copy_loop t d0 src n cur w = (r, w') \<Longrightarrow>
     logs_only (\<lambda>e. is_copy_ctor e \<or> is_dtor e) w w'"
proof (induction n arbitrary: src cur w)
  case 0
  then show ?case by simp
next
  case (Suc n)
  obtain r1 w1 where s: "construct_copy t src cur w = (r1, w1)" by (cases "construct_copy t src cur w")
  from construct_copy_logs[OF s] have l1: "logs_only (\<lambda>e. is_copy_ctor e \<or> is_dtor e) w w1"
    by (rule logs_only_mono) simp
  show ?case
  proof (cases r1)
    case (Inl e)
    with Suc.prems s have "on_throw (destroy_n d0 (snd cur - snd d0)) (Inl e, w1) = (r, w')" by simp
    from on_throw_destroy_logs[OF this] have "logs_only (\<lambda>e. is_copy_ctor e \<or> is_dtor e) w1 w'"
      by (rule logs_only_mono) simp
    with l1 show ?thesis by (rule logs_only_trans)
  next
    case (Inr u)
    with Suc.prems s have "uninitialized_copy_loop t d0 (ptr_add src 1) n (ptr_add cur 1) w1 = (r, w')"
      by simp
    from l1 Suc.IH[OF this] show ?thesis by (rule logs_only_trans)
  qed
qed

lemma uninitialized_move_loop_logs:
  "uninitialized_move_loop t d0 src n cur w = (r, w') \<Longrightarrow>
     logs_only (\<lambda>e. is_move_ctor e \<or> is_dtor e) w w'"
proof (induction n arbitrary: src cur w)
  case 0
  then show ?case by simp
next
  case (Suc n)
  obtain r1 w1 where s: "construct_move t src cur w = (r1, w1)" by (cases "construct_move t src cur w")
  from construct_move_logs[OF s] have l1: "logs_only (\<lambda>e. is_move_ctor e \<or> is_dtor e) w w1"
    by (rule logs_only_mono) simp
  show ?case
  proof (cases r1)
    case (Inl e)
    with Suc.prems s have "on_throw (destroy_n d0 (snd cur - snd d0)) (Inl e, w1) = (r, w')" by simp
    from on_throw_destroy_logs[OF this] have "logs_only (\<lambda>e. is_move_ctor e \<or> is_dtor e) w1 w'"
      by (rule logs_only_mono) simp
    with l1 show ?thesis by (rule logs_only_trans)
  next
    case (Inr u)
    with Suc.prems s have "uninitialized_move_loop t d0 (ptr_add src 1) n (ptr_add cur 1) w1 = (r, w')"
      by simp
    from l1 Suc.IH[OF this] show ?thesis by (rule logs_only_trans)
  qed
qed

lemma copy_loop_logs: "copy_loop t src n dst w = (r, w') \<Longrightarrow> logs_only is_copy_assign w w'"
proof (induction n arbitrary: src dst w)
  case 0
  then show ?case by simp
next
  case (Suc n)
  obtain r1 w1 where s: "assign_copy t src dst w = (r1, w1)" by (cases "assign_copy t src dst w")
  note l1 = assign_copy_logs[OF s]
  show ?case
  proof (cases r1)
    case (Inl e)
    with Suc.prems s l1 show ?thesis by simp
  next
    case (Inr u)
    with Suc.prems s have "copy_loop t (ptr_add src 1) n (ptr_add dst 1) w1 = (r, w')" by simp
    from l1 Suc.IH[OF this] show ?thesis by (rule logs_only_trans)
  qed
qed

lemma move_loop_logs: "move_loop t src n dst w = (r, w') \<Longrightarrow> logs_only is_move_assign w w'"
proof (induction n arbitrary: src dst w)
  case 0
  then show ?case by simp
next
  case (Suc n)
  obtain r1 w1 where s: "assign_move t src dst w = (r1, w1)" by (cases "assign_move t src dst w")
  note l1 = assign_move_logs[OF s]
  show ?case
  proof (cases r1)
    case (Inl e)
    with Suc.prems s l1 show ?thesis by simp
  next
    case (Inr u)
    with Suc.prems s have "move_loop t (ptr_add src 1) n (ptr_add dst 1) w1 = (r, w')" by simp
    from l1 Suc.IH[OF this] show ?thesis by (rule logs_only_trans)
  qed
qed

text \<open>The events relocation may log under the policy of the element type.\<close>

lemma MoveOrCopy_logs:
  assumes "MoveOrCopy t src n dst w = (r, w')"
  shows "logs_only (\<lambda>e. (if nothrow_move_constructible t \<or> \<not> copy_constructible t
                          then is_move_ctor e else is_copy_ctor e) \<or> is_dtor e) w w'"
proof (cases "nothrow_move_constructible t \<or> \<not> copy_constructible t")
  case True
  with assms have "uninitialized_move_loop t dst src n dst w = (r, w')"
    by (simp add: MoveOrCopy_def uninitialized_move_n_def)
  from uninitialized_move_loop_logs[OF this] True show ?thesis
    by (auto elim: logs_only_mono)
next
  case False
  with assms have "uninitialized_copy_loop t dst src n dst w = (r, w')"
    by (simp add: MoveOrCopy_def uninitialized_copy_n_def)
  from uninitialized_copy_loop_logs[OF this] False show ?thesis
    by (auto elim: logs_only_mono)
qed

lemma Deallocate_trace: "Deallocate b w = (r, w') \<Longrightarrow> trace w' = trace w"
  by (auto simp: Deallocate_def operator_delete_def split: option.splits)

lemma RawMemory_ctor_trace: "RawMemory_ctor t n w = (r, w') \<Longrightarrow> trace w' = trace w"
  by (auto simp: RawMemory_ctor_def Allocate_def operator_new_def split: if_splits prod.splits sum.splits)

lemma at_scope_exit_dtor_trace:
  "at_scope_exit (RawMemory_dtor b) (r0, w1) = (r, w') \<Longrightarrow> trace w' = trace w1"
  by (cases r0)
     (auto simp: at_scope_exit_def RawMemory_dtor_def dest: Deallocate_trace
       split: if_splits prod.splits sum.splits)

lemma MoveOrCopyAndSwap_logs:
  assumes "MoveOrCopyAndSwap t dat n buf w = (r, w')"
  shows "logs_only (\<lambda>e. (if nothrow_move_constructible t \<or> \<not> copy_constructible t
                          then is_move_ctor e else is_copy_ctor e) \<or> is_dtor e) w w'"
proof -
  let ?P = "\<lambda>e. (if nothrow_move_constructible t \<or> \<not> copy_constructible t
                          then is_move_ctor e else is_copy_ctor e) \<or> is_dtor e"
  obtain r1 w1 where m: "MoveOrCopy t (GetAddress dat) n (GetAddress buf) w = (r1, w1)"
    by (cases "MoveOrCopy t (GetAddress dat) n (GetAddress buf) w")
  note l1 = MoveOrCopy_logs[OF m]
  show ?thesis
  proof (cases r1)
    case (Inl e)
    with assms m l1 show ?thesis by (simp add: MoveOrCopyAndSwap_def bind_def)
  next
    case (Inr u)
    obtain r2 w2 where d: "destroy_n (GetAddress dat) n w1 = (r2, w2)"
      by (cases "destroy_n (GetAddress dat) n w1")
    from destroy_n_logs[OF d] have l2: "logs_only ?P w1 w2" by (rule logs_only_mono) simp
    from assms m Inr d have "w' = w2"
      by (cases r2) (auto simp: MoveOrCopyAndSwap_def bind_def)
    with logs_only_trans[OF l1 l2] show ?thesis by (simp only:)
  qed
qed

lemma logs_only_new_events:
  "logs_only P w w' \<Longrightarrow> list_all P (new_events w w')"
  by (auto simp: logs_only_def new_events_def)

lemma reloc_not_against:
  "(if nothrow_move_constructible t \<or> \<not> copy_constructible t then is_move_ctor e else is_copy_ctor e)
     \<or> is_dtor e \<Longrightarrow> \<not> against_policy t e"
  by (cases e) (auto simp: against_policy_def relocates_by_move_def split: if_splits)

lemma policy_ctor_map:
  "map (\<lambda>k. if nothrow_move_constructible t \<or> \<not> copy_constructible t
             then MoveCtor (f k) else CopyCtor (f k)) xs = map (\<lambda>k. policy_ctor t (f k)) xs"
  by (simp add: policy_ctor_def relocates_by_move_def)

lemma Reserve_logs:
  assumes "Reserve t n v w = (r, v', w')"
  shows "logs_only (\<lambda>e. \<not> against_policy t e) w w'"
proof (cases "n \<le> capacity (data v)")
  case True
  with assms show ?thesis by (simp add: Reserve_def Capacity_raw_def)
next
  case False
  obtain rb w1 where rc: "RawMemory_ctor t n w = (rb, w1)" by (cases "RawMemory_ctor t n w")
  note t1 = RawMemory_ctor_trace[OF rc]
  show ?thesis
  proof (cases rb)
    case (Inl e)
    with assms False rc t1 show ?thesis
      by (auto simp: Reserve_def Capacity_raw_def intro: logs_only_same)
  next
    case (Inr buf)
    obtain rm w2 where ms: "MoveOrCopyAndSwap t (data v) (vsize v) buf w1 = (rm, w2)"
      by (cases "MoveOrCopyAndSwap t (data v) (vsize v) buf w1")
    from MoveOrCopyAndSwap_logs[OF ms] have l2: "logs_only (\<lambda>e. \<not> against_policy t e) w1 w2"
      by (rule logs_only_mono) (rule reloc_not_against)
    have "trace w' = trace w2"
    proof (cases rm)
      case (Inl e)
      with assms False rc \<open>rb = Inr buf\<close> ms
      have "trace w' = trace w2"
        by (auto simp: Reserve_def Capacity_raw_def split: prod.splits dest: at_scope_exit_dtor_trace)
      then show ?thesis .
    next
      case (Inr db)
      obtain d b where db: "db = (d, b)" by (cases db)
      with assms False rc \<open>rb = Inr buf\<close> ms Inr
      have "trace w' = trace w2"
        by (auto simp: Reserve_def Capacity_raw_def split: prod.splits dest: at_scope_exit_dtor_trace)
      then show ?thesis .
    qed
    with l2 t1 show ?thesis by (simp add: logs_only_def)
  qed
qed

lemma construct_from_logs:
  "construct_from t a dst w = (r, w') \<Longrightarrow>
     (\<exists>e. r = Inl e \<and> w' = w) \<or> (\<exists>e. r = Inr () \<and> trace w' = trace w @ [e])"
proof (cases a)
  case (ByConstRef x)
  assume "construct_from t a dst w = (r, w')"
  with ByConstRef show ?thesis
    by (cases x)
       (auto simp: construct_from_def construct_copy_def split: option.splits slot.splits if_splits)
next
  case (ByRvalue x)
  assume "construct_from t a dst w = (r, w')"
  with ByRvalue show ?thesis
    by (cases x)
       (auto simp: construct_from_def construct_move_def split: option.splits slot.splits if_splits)
next
  case (FromArgs x)
  assume "construct_from t a dst w = (r, w')"
  with FromArgs show ?thesis
    by (auto simp: construct_from_def split: option.splits if_splits)
qed

lemma logs_after_first:
  assumes "trace w2 = trace w @ [e]" "logs_only P w2 w'"
  shows "list_all P (drop 1 (new_events w w'))"
  using assms by (auto simp: logs_only_def new_events_def)

lemma EmplaceBack_grow_logs:
  assumes run: "EmplaceBack t a v w = (r, v', w')" and full: "vsize v = capacity (data v)"
  shows "list_all (\<lambda>e. \<not> against_policy t e) (drop 1 (new_events w w'))"
proof -
  let ?n = "if vsize v = 0 then 1 else vsize v * 2"
  obtain rb w1 where rc: "RawMemory_ctor t ?n w = (rb, w1)" by (cases "RawMemory_ctor t ?n w")
  note t1 = RawMemory_ctor_trace[OF rc]
  show ?thesis
  proof (cases rb)
    case (Inl e)
    with run full rc t1 show ?thesis
      by (auto simp: EmplaceBack_def Capacity_def Capacity_raw_def new_events_def)
  next
    case (Inr buf)
    let ?c = "at_address (raw_index buf (vsize v)) (construct_from t a)"
    obtain rc1 w2 where c: "?c w1 = (rc1, w2)" by (cases "?c w1")
    show ?thesis
    proof (cases rc1)
      case (Inl e)
      with c have "w2 = w1"
        by (auto simp: at_address_def raw_index_def dest: construct_from_logs split: if_splits)
      with run full rc \<open>rb = Inr buf\<close> c Inl
      have "trace w' = trace w1"
        by (auto simp: EmplaceBack_def Capacity_def Capacity_raw_def bind_def split: prod.splits dest: at_scope_exit_dtor_trace)
      with t1 show ?thesis by (simp add: new_events_def)
    next
      case (Inr u)
      with c have "construct_from t a (buffer buf, vsize v) w1 = (Inr (), w2)"
        by (auto simp: at_address_def raw_index_def split: if_splits)
      from construct_from_logs[OF this] t1 obtain e where t2: "trace w2 = trace w @ [e]" by auto
      obtain rm w3 where ms: "MoveOrCopyAndSwap t (data v) (vsize v) buf w2 = (rm, w3)"
        by (cases "MoveOrCopyAndSwap t (data v) (vsize v) buf w2")
      from MoveOrCopyAndSwap_logs[OF ms] have l3: "logs_only (\<lambda>e. \<not> against_policy t e) w2 w3"
        by (rule logs_only_mono) (rule reloc_not_against)
      have "trace w' = trace w3"
      proof (cases rm)
        case (Inl e')
        with run full rc \<open>rb = Inr buf\<close> c \<open>rc1 = Inr u\<close> ms
        have "trace w' = trace w3"
          by (auto simp: EmplaceBack_def Capacity_def Capacity_raw_def bind_def split: prod.splits dest: at_scope_exit_dtor_trace)
        then show ?thesis .
      next
        case (Inr db)
        obtain d b where db: "db = (d, b)" by (cases db)
        obtain rd w4 where dt: "RawMemory_dtor b w3 = (rd, w4)" by (cases "RawMemory_dtor b w3")
        then have t4: "trace w4 = trace w3" by (auto simp: RawMemory_dtor_def dest: Deallocate_trace)
        from run full rc \<open>rb = Inr buf\<close> c \<open>rc1 = Inr u\<close> ms Inr db dt have "w' = w4"
          by (cases rd)
             (auto simp: EmplaceBack_def Capacity_def Capacity_raw_def bind_def EmplaceBack_return_def
               split: sum.splits)
        with t4 show ?thesis by simp
      qed
      with l3 have "logs_only (\<lambda>e. \<not> against_policy t e) w2 w'" by (simp add: logs_only_def)
      with t2 show ?thesis by (rule logs_after_first)
    qed
  qed
qed

lemma bind_logs:
  assumes "bind m f w = (r, w')"
    and "\<And>r1 w1. m w = (r1, w1) \<Longrightarrow> logs_only P w w1"
    and "\<And>x w1 r2 w2. f x w1 = (r2, w2) \<Longrightarrow> logs_only P w1 w2"
  shows "logs_only P w w'"
proof -
  obtain r1 w1 where m: "m w = (r1, w1)" by (cases "m w")
  show ?thesis
  proof (cases r1)
    case (Inl e)
    with assms(1) m have "w' = w1" by (simp add: bind_def)
    with assms(2)[OF m] show ?thesis by simp
  next
    case (Inr x)
    with assms(1) m have "f x w1 = (r, w')" by (simp add: bind_def)
    from assms(2)[OF m] assms(3)[OF this] show ?thesis by (rule logs_only_trans)
  qed
qed

lemma MoveOrCopy_within_policy:
  "MoveOrCopy t src n dst w = (r, w') \<Longrightarrow> logs_only (\<lambda>e. \<not> against_policy t e) w w'"
  by (drule MoveOrCopy_logs) (erule logs_only_mono, rule reloc_not_against)

lemma destroy_n_within_policy:
  "destroy_n p n w = (r, w') \<Longrightarrow> logs_only (\<lambda>e. \<not> against_policy t e) w w'"
  by (drule destroy_n_logs) (erule logs_only_mono, rule reloc_not_against, simp)

lemma Emplace_grow_logs:
  assumes run: "Emplace_grow t dist a v w = (r, v', w')"
  shows "list_all (\<lambda>e. \<not> against_policy t e) (drop 1 (new_events w w'))"
proof -
  let ?n = "if vsize v = 0 then 1 else vsize v * 2"
  obtain rb w1 where rc: "RawMemory_ctor t ?n w = (rb, w1)" by (cases "RawMemory_ctor t ?n w")
  note t1 = RawMemory_ctor_trace[OF rc]
  show ?thesis
  proof (cases rb)
    case (Inl e)
    with run rc t1 show ?thesis by (auto simp: Emplace_grow_def new_events_def)
  next
    case (Inr buf)
    let ?rest = "bind (MoveOrCopy t (GetAddress (data v)) dist (GetAddress buf))
                  (\<lambda>_. bind (MoveOrCopy t (ptr_add (GetAddress (data v)) dist) (vsize v - dist)
                               (ptr_add (GetAddress buf) (dist + 1)))
                  (\<lambda>_. destroy_n (GetAddress (data v)) (vsize v)))"
    let ?c = "construct_from t a (ptr_add (GetAddress buf) dist)"
    obtain rc1 w2 where c: "?c w1 = (rc1, w2)" by (cases "?c w1")
    show ?thesis
    proof (cases rc1)
      case (Inl e)
      with c have "w2 = w1" by (auto dest: construct_from_logs)
      with run rc \<open>rb = Inr buf\<close> c Inl have "trace w' = trace w1"
        by (auto simp: Emplace_grow_def bind_def split: prod.splits dest: at_scope_exit_dtor_trace)
      with t1 show ?thesis by (simp add: new_events_def)
    next
      case (Inr u)
      with construct_from_logs[OF c] t1 obtain e where t2: "trace w2 = trace w @ [e]" by auto
      obtain rm w5 where rest: "?rest w2 = (rm, w5)" by (cases "?rest w2")
      have l: "logs_only (\<lambda>e. \<not> against_policy t e) w2 w5"
        using rest
        by (rule bind_logs)
           (auto elim!: bind_logs intro: MoveOrCopy_within_policy destroy_n_within_policy)
      have "trace w' = trace w5"
      proof (cases rm)
        case (Inl e')
        with run rc \<open>rb = Inr buf\<close> c \<open>rc1 = Inr u\<close> rest show ?thesis
          by (auto simp: Emplace_grow_def bind_def split: prod.splits dest: at_scope_exit_dtor_trace)
      next
        case (Inr u')
        let ?b = "snd (RawMemory_Swap (data v) buf)"
        obtain rd w6 where dt: "RawMemory_dtor ?b w5 = (rd, w6)" by (cases "RawMemory_dtor ?b w5")
        then have t6: "trace w6 = trace w5" by (auto simp: RawMemory_dtor_def dest: Deallocate_trace)
        from run rc \<open>rb = Inr buf\<close> c \<open>rc1 = Inr u\<close> rest Inr dt have "w' = w6"
          by (cases rd) (auto simp: Emplace_grow_def bind_def RawMemory_Swap_def)
        with t6 show ?thesis by simp
      qed
      with l have "logs_only (\<lambda>e. \<not> against_policy t e) w2 w'" by (simp add: logs_only_def)
      with t2 show ?thesis by (rule logs_after_first)
    qed
  qed
qed

lemma Emplace_full_logs:
  assumes run: "Emplace t pos a v w = (r, v', w')" and full: "vsize v = capacity (data v)"
  shows "list_all (\<lambda>e. \<not> against_policy t e) (drop 1 (new_events w w'))"
proof -
  from run full consider "w' = w" | "Emplace_grow t (snd pos - snd (vbegin v)) a v w = (r, v', w')"
    by (auto simp: Emplace_def Capacity_def Capacity_raw_def split: if_splits)
  then show ?thesis
  proof cases
    case 1
    then show ?thesis by (simp add: new_events_def)
  next
    case 2
    then show ?thesis by (rule Emplace_grow_logs)
  qed
qed

lemma assign_within_policy:
  "(if nothrow_move_constructible t \<or> \<not> copy_constructible t then is_move_assign e else is_copy_assign e)
     \<or> is_dtor e \<Longrightarrow> \<not> against_policy t e"
  by (cases e) (auto simp: against_policy_def relocates_by_move_def split: if_splits)

lemma Erase_logs:
  assumes run: "Erase t pos v w = (r, v', w')"
  shows "logs_only (\<lambda>e. \<not> against_policy t e) w w'"
proof -
  let ?p = "ptr_add (GetAddress (data v)) (snd pos - snd (GetAddress (data v)))"
  let ?shift = "\<lambda>_::unit. if nothrow_move_constructible t \<or> \<not> copy_constructible t
                      then std_move t (ptr_add ?p 1) (vend v) ?p
                      else std_copy t (ptr_add ?p 1) (vend v) ?p"
  let ?body = "bind (destroy_at ?p) ?shift"
  obtain rb w1 where b: "?body w = (rb, w1)" by (cases "?body w")
  have l: "logs_only (\<lambda>e. \<not> against_policy t e) w w1"
    using b
  proof (rule bind_logs)
    fix r1 w1 assume "destroy_at ?p w = (r1, w1)"
    from destroy_at_logs[OF this] show "logs_only (\<lambda>e. \<not> against_policy t e) w w1"
      by (rule logs_only_mono) (rule assign_within_policy, simp)
  next
    fix x w1 r2 w2 assume s: "?shift x w1 = (r2, w2)"
    show "logs_only (\<lambda>e. \<not> against_policy t e) w1 w2"
    proof (cases "nothrow_move_constructible t \<or> \<not> copy_constructible t")
      case True
      with s have "w2 = w1 \<or> (\<exists>n. move_loop t (ptr_add ?p 1) n ?p w1 = (r2, w2))"
        by (auto simp: std_move_def split: if_splits)
      then show ?thesis
      proof
        assume "w2 = w1" then show ?thesis by simp
      next
        assume "\<exists>n. move_loop t (ptr_add ?p 1) n ?p w1 = (r2, w2)"
        then obtain n where "move_loop t (ptr_add ?p 1) n ?p w1 = (r2, w2)" by blast
        from move_loop_logs[OF this] show ?thesis
          by (rule logs_only_mono) (rule assign_within_policy, simp add: True)
      qed
    next
      case False
      with s have "w2 = w1 \<or> (\<exists>n. copy_loop t (ptr_add ?p 1) n ?p w1 = (r2, w2))"
        by (auto simp: std_copy_def split: if_splits)
      then show ?thesis
      proof
        assume "w2 = w1" then show ?thesis by simp
      next
        assume "\<exists>n. copy_loop t (ptr_add ?p 1) n ?p w1 = (r2, w2)"
        then obtain n where "copy_loop t (ptr_add ?p 1) n ?p w1 = (r2, w2)" by blast
        from copy_loop_logs[OF this] show ?thesis
          by (rule logs_only_mono) (rule assign_within_policy, simp add: False)
      qed
    qed
  qed
  from run b have "w' = w \<or> w' = w1"
    by (cases rb) (auto simp: Erase_def split: if_splits)
  with l show ?thesis by auto
qed

lemma Erase_trace_Inr:
  assumes run: "Erase t (buffer (data v), dist) v w = (Inr r, v', w')"
  shows "Suc dist \<le> vsize v
       \<and> trace w' = trace w @ Dtor (buffer (data v), dist)
            # map (\<lambda>k. policy_assign t (buffer (data v), dist + k)) [0..<vsize v - Suc dist]"
proof -
  let ?bo = "buffer (data v)"
  let ?shift = "if nothrow_move_constructible t \<or> \<not> copy_constructible t
                      then std_move t (?bo, Suc dist) (?bo, vsize v) (?bo, dist)
                      else std_copy t (?bo, Suc dist) (?bo, vsize v) (?bo, dist)"
  from run have b: "bind (destroy_at (?bo, dist)) (\<lambda>_. ?shift) w = (Inr (), w')"
    by (auto simp: Erase_def vbegin_def vend_def GetAddress_def split: if_splits prod.splits sum.splits)
  then obtain w1 where d: "destroy_at (?bo, dist) w = (Inr (), w1)" and s: "?shift w1 = (Inr (), w')"
    by (auto elim!: bind_InrE)
  from d have t1: "trace w1 = trace w @ [Dtor (?bo, dist)]" by (auto elim!: destroy_at_InrE)
  show ?thesis
  proof (cases "nothrow_move_constructible t \<or> \<not> copy_constructible t")
    case True
    with s have le: "Suc dist \<le> vsize v"
      and m: "move_loop t (?bo, Suc dist) (vsize v - Suc dist) (?bo, dist) w1 = (Inr (), w')"
      by (auto simp: std_move_def split: if_splits)
    from move_loop_Inr[OF m] have "trace w' = trace w1 @ map (\<lambda>k. MoveAssign (?bo, dist + k)) [0..<vsize v - Suc dist]"
      by blast
    with t1 le True show ?thesis by (simp add: policy_assign_def relocates_by_move_def)
  next
    case False
    with s have le: "Suc dist \<le> vsize v"
      and m: "copy_loop t (?bo, Suc dist) (vsize v - Suc dist) (?bo, dist) w1 = (Inr (), w')"
      by (auto simp: std_copy_def split: if_splits)
    from copy_loop_Inr[OF m] have "trace w' = trace w1 @ map (\<lambda>k. CopyAssign (?bo, dist + k)) [0..<vsize v - Suc dist]"
      by auto
    with t1 le False show ?thesis by (simp add: policy_assign_def relocates_by_move_def)
  qed
qed

section \<open>Exceptions during growth\<close>




lemma rolled_back_Nil [simp]: "rolled_back b []"
  by (simp add: rolled_back_def)











lemma grow_size_pos: "0 < (if n = 0 then 1 else n * 2 :: nat)"
  by simp










section \<open>Runs that return\<close>

text \<open>
  When no operation of the element type throws and the memory source has the slots asked
  for, the operations on a well-formed vector return: no assertion fails and no step is
  undefined. The lemmas follow a run step by step and show that each step finds the
  slots it needs.
\<close>

lemma destroy_n_returns:
  "(\<forall>k<n. \<exists>x. slot_at w (b, i + k) = Some (Obj x)) \<Longrightarrow> \<exists>w'. destroy_n (b, i) n w = (Inr (), w')"
proof (induction n arbitrary: i w)
  case 0
  then show ?case by simp
next
  case (Suc n)
  from Suc.prems[rule_format, of 0] obtain x where x: "slot_at w (b, i) = Some (Obj x)" by auto
  let ?w1 = "log_event (Dtor (b, i)) (put_slot (b, i) Raw w)"
  from x have d: "destroy_at (b, i) w = (Inr (), ?w1)" by (simp add: destroy_at_def)
  have "\<forall>k<n. \<exists>x. slot_at ?w1 (b, Suc i + k) = Some (Obj x)"
    using Suc.prems by (auto dest: spec[of _ "Suc _"])
  from Suc.IH[OF this] d show ?case by simp
qed

lemma uninitialized_copy_loop_returns:
  "sb \<noteq> cb \<Longrightarrow> \<forall>x. \<not> copy_ctor_throws t x \<Longrightarrow>
   (\<forall>k<n. \<exists>x. slot_at w (sb, si + k) = Some (Obj x)) \<Longrightarrow>
   (\<forall>k<n. slot_at w (cb, ci + k) \<noteq> None) \<Longrightarrow>
   \<exists>w'. uninitialized_copy_loop t d0 (sb, si) n (cb, ci) w = (Inr (), w')"
proof (induction n arbitrary: si ci w)
  case 0
  then show ?case by simp
next
  case (Suc n)
  from Suc.prems(3)[rule_format, of 0] obtain x where x: "slot_at w (sb, si) = Some (Obj x)" by auto
  from Suc.prems(4)[rule_format, of 0] obtain s where s: "slot_at w (cb, ci) = Some s" by auto
  let ?w1 = "log_event (CopyCtor (cb, ci)) (put_slot (cb, ci) (Obj x) w)"
  from x s Suc.prems(2) have c: "construct_copy t (sb, si) (cb, ci) w = (Inr (), ?w1)"
    by (simp add: construct_copy_def)
  have a: "\<forall>k<n. \<exists>x. slot_at ?w1 (sb, Suc si + k) = Some (Obj x)"
    using Suc.prems(1,3) by (auto dest: spec[of _ "Suc _"])
  have b: "\<forall>k<n. slot_at ?w1 (cb, Suc ci + k) \<noteq> None"
    using Suc.prems(4) by (auto dest: spec[of _ "Suc _"])
  from Suc.IH[OF Suc.prems(1,2) a b] c show ?case by simp
qed

lemma uninitialized_move_loop_returns:
  "sb \<noteq> cb \<Longrightarrow> \<forall>x. \<not> move_ctor_throws t x \<Longrightarrow>
   (\<forall>k<n. \<exists>x. slot_at w (sb, si + k) = Some (Obj x)) \<Longrightarrow>
   (\<forall>k<n. slot_at w (cb, ci + k) \<noteq> None) \<Longrightarrow>
   \<exists>w'. uninitialized_move_loop t d0 (sb, si) n (cb, ci) w = (Inr (), w')"
proof (induction n arbitrary: si ci w)
  case 0
  then show ?case by simp
next
  case (Suc n)
  from Suc.prems(3)[rule_format, of 0] obtain x where x: "slot_at w (sb, si) = Some (Obj x)" by auto
  from Suc.prems(4)[rule_format, of 0] obtain s where s: "slot_at w (cb, ci) = Some s" by auto
  let ?w1 = "log_event (MoveCtor (cb, ci))
               (put_slot (cb, ci) (Obj x) (put_slot (sb, si) (Obj (moved_from t x)) w))"
  from x s Suc.prems(2) have c: "construct_move t (sb, si) (cb, ci) w = (Inr (), ?w1)"
    by (simp add: construct_move_def)
  have a: "\<forall>k<n. \<exists>x. slot_at ?w1 (sb, Suc si + k) = Some (Obj x)"
    using Suc.prems(1,3) by (auto dest: spec[of _ "Suc _"])
  have b: "\<forall>k<n. slot_at ?w1 (cb, Suc ci + k) \<noteq> None"
    using Suc.prems(1,4) by (auto dest: spec[of _ "Suc _"])
  from Suc.IH[OF Suc.prems(1,2) a b] c show ?case by simp
qed

lemma uninitialized_value_construct_loop_returns:
  "\<not> default_ctor_throws t \<Longrightarrow> (\<forall>k<n. slot_at w (b, i + k) \<noteq> None) \<Longrightarrow>
   \<exists>w'. uninitialized_value_construct_loop t d0 n (b, i) w = (Inr (), w')"
proof (induction n arbitrary: i w)
  case 0
  then show ?case by simp
next
  case (Suc n)
  from Suc.prems(2)[rule_format, of 0] obtain s where s: "slot_at w (b, i) = Some s" by auto
  let ?w1 = "log_event (ValueCtor (b, i)) (put_slot (b, i) (Obj (default_value t)) w)"
  from s Suc.prems(1) have c: "construct_value t (b, i) w = (Inr (), ?w1)"
    by (simp add: construct_value_def)
  have b: "\<forall>k<n. slot_at ?w1 (b, Suc i + k) \<noteq> None"
    using Suc.prems(2) by (auto dest: spec[of _ "Suc _"])
  from Suc.IH[OF Suc.prems(1) b] c show ?case by simp
qed

lemma heap_put_slot_None [simp]: "heap (put_slot q s w) b = None \<longleftrightarrow> heap w b = None"
  by (auto simp: put_slot_def split: option.splits)

lemma heap_log_event [simp]: "heap (log_event e w) = heap w"
  by (simp add: log_event_def)

lemma destroy_n_allocated:
  "destroy_n p n w = (r, w') \<Longrightarrow> (heap w' b = None) = (heap w b = None)"
proof (induction n arbitrary: p w)
  case 0
  then show ?case by simp
next
  case (Suc n)
  obtain r1 w1 where d: "destroy_at p w = (r1, w1)" by (cases "destroy_at p w")
  then have h: "(heap w1 b = None) = (heap w b = None)"
    by (auto simp: destroy_at_def split: option.splits slot.splits)
  show ?case
  proof (cases r1)
    case (Inl e)
    with Suc.prems d h show ?thesis by simp
  next
    case (Inr u)
    with Suc.prems d have "destroy_n (ptr_add p 1) n w1 = (r, w')" by simp
    from Suc.IH[OF this] h show ?thesis by simp
  qed
qed

lemma on_throw_destroy_allocated:
  assumes "on_throw (destroy_n p k) (Inl e :: error + unit, w1) = (r, w')"
  shows "(heap w' b = None) = (heap w1 b = None)"
proof -
  from assms have "w' = w1 \<or> (\<exists>rd. destroy_n p k w1 = (rd, w'))"
    by (auto simp: on_throw_def split: if_splits prod.splits sum.splits)
  then show ?thesis by (auto dest: destroy_n_allocated[where b=b])
qed

lemma uninitialized_copy_loop_allocated:
  "uninitialized_copy_loop t d0 src n cur w = (r, w') \<Longrightarrow> (heap w' b = None) = (heap w b = None)"
proof (induction n arbitrary: src cur w)
  case 0
  then show ?case by simp
next
  case (Suc n)
  obtain r1 w1 where c: "construct_copy t src cur w = (r1, w1)" by (cases "construct_copy t src cur w")
  then have h: "(heap w1 b = None) = (heap w b = None)"
    by (auto simp: construct_copy_def split: option.splits slot.splits if_splits)
  show ?case
  proof (cases r1)
    case (Inl e)
    with Suc.prems c
    have "on_throw (destroy_n d0 (snd cur - snd d0)) (Inl e :: error + unit, w1) = (r, w')" by simp
    from on_throw_destroy_allocated[OF this] h show ?thesis by simp
  next
    case (Inr u)
    with Suc.prems c have "uninitialized_copy_loop t d0 (ptr_add src 1) n (ptr_add cur 1) w1 = (r, w')"
      by simp
    from Suc.IH[OF this] h show ?thesis by simp
  qed
qed

lemma uninitialized_move_loop_allocated:
  "uninitialized_move_loop t d0 src n cur w = (r, w') \<Longrightarrow> (heap w' b = None) = (heap w b = None)"
proof (induction n arbitrary: src cur w)
  case 0
  then show ?case by simp
next
  case (Suc n)
  obtain r1 w1 where c: "construct_move t src cur w = (r1, w1)" by (cases "construct_move t src cur w")
  then have h: "(heap w1 b = None) = (heap w b = None)"
    by (auto simp: construct_move_def split: option.splits slot.splits if_splits)
  show ?case
  proof (cases r1)
    case (Inl e)
    with Suc.prems c
    have "on_throw (destroy_n d0 (snd cur - snd d0)) (Inl e :: error + unit, w1) = (r, w')" by simp
    from on_throw_destroy_allocated[OF this] h show ?thesis by simp
  next
    case (Inr u)
    with Suc.prems c have "uninitialized_move_loop t d0 (ptr_add src 1) n (ptr_add cur 1) w1 = (r, w')"
      by simp
    from Suc.IH[OF this] h show ?thesis by simp
  qed
qed

lemma MoveOrCopy_allocated:
  "MoveOrCopy t src n dst w = (r, w') \<Longrightarrow> (heap w' b = None) = (heap w b = None)"
  by (auto simp: MoveOrCopy_def uninitialized_move_n_def uninitialized_copy_n_def
      dest: uninitialized_copy_loop_allocated[where b=b] uninitialized_move_loop_allocated[where b=b]
      split: if_splits)

lemma construct_from_allocated:
  "construct_from t a dst w = (r, w') \<Longrightarrow> (heap w' b = None) = (heap w b = None)"
proof (cases a)
  case (ByConstRef x)
  assume "construct_from t a dst w = (r, w')"
  with ByConstRef show ?thesis
    by (cases x)
       (auto simp: construct_from_def construct_copy_def split: option.splits slot.splits if_splits)
next
  case (ByRvalue x)
  assume "construct_from t a dst w = (r, w')"
  with ByRvalue show ?thesis
    by (cases x)
       (auto simp: construct_from_def construct_move_def split: option.splits slot.splits if_splits)
next
  case (FromArgs x)
  assume "construct_from t a dst w = (r, w')"
  with FromArgs show ?thesis
    by (auto simp: construct_from_def split: option.splits if_splits)
qed

lemma RawMemory_ctor_allocated:
  "RawMemory_ctor t n w = (r, w') \<Longrightarrow> b \<noteq> fresh w \<Longrightarrow> heap w' b = heap w b"
  by (auto simp: RawMemory_ctor_def Allocate_def operator_new_def split: if_splits prod.splits sum.splits)

lemma Deallocate_returns:
  "(\<And>b. bo = Some b \<Longrightarrow> heap w b \<noteq> None) \<Longrightarrow> \<exists>w'. Deallocate bo w = (Inr (), w')"
  by (cases bo) (auto simp: Deallocate_def operator_delete_def split: option.splits)

lemma RawMemory_ctor_returns:
  "block_slots t n \<le> avail w \<Longrightarrow> \<exists>buf w'. RawMemory_ctor t n w = (Inr buf, w')"
  by (simp add: RawMemory_ctor_def Allocate_def operator_new_def block_slots_def)

lemma grow_size_max: "(if n = 0 then 1 else n * 2) = max 1 (2 * (n::nat))"
  by simp

lemma MoveOrCopy_returns:
  assumes "never_throws t" "sb \<noteq> cb"
    and "\<forall>k<n. \<exists>x. slot_at w (sb, si + k) = Some (Obj x)"
    and "\<forall>k<n. slot_at w (cb, ci + k) \<noteq> None"
  shows "\<exists>w'. MoveOrCopy t (sb, si) n (cb, ci) w = (Inr (), w')"
proof -
  from assms(1) have nc: "\<forall>x. \<not> copy_ctor_throws t x" and nm: "\<forall>x. \<not> move_ctor_throws t x"
    by (simp_all add: never_throws_def)
  show ?thesis
    unfolding MoveOrCopy_def uninitialized_move_n_def uninitialized_copy_n_def
    using uninitialized_copy_loop_returns[OF assms(2) nc assms(3,4)]
      uninitialized_move_loop_returns[OF assms(2) nm assms(3,4)]
    by simp
qed

lemma MoveOrCopy_sources_alive:
  assumes "MoveOrCopy t (sb, si) n (cb, ci) w = (Inr u, w')" "sb \<noteq> cb"
  shows "\<forall>k<n. \<exists>x. slot_at w' (sb, si + k) = Some (Obj x)"
proof (cases "nothrow_move_constructible t \<or> \<not> copy_constructible t")
  case True
  with assms(1) have "uninitialized_move_loop t (cb, ci) (sb, si) n (cb, ci) w = (Inr u, w')"
    by (simp add: MoveOrCopy_def uninitialized_move_n_def)
  from uninitialized_move_loop_Inr[OF this assms(2)]
  have h: "\<forall>k<n. slot_at w' (sb, si + k) = map_option (husk t) (slot_at w (sb, si + k))"
    and o: "\<forall>k<n. \<exists>x. slot_at w (sb, si + k) = Some (Obj x)"
    by blast+
  show ?thesis
  proof (intro allI impI)
    fix k assume "k < n"
    with h o obtain x where "slot_at w' (sb, si + k) = map_option (husk t) (Some (Obj x))" by force
    then show "\<exists>x. slot_at w' (sb, si + k) = Some (Obj x)" by simp
  qed
next
  case False
  with assms(1) have "uninitialized_copy_loop t (cb, ci) (sb, si) n (cb, ci) w = (Inr u, w')"
    by (simp add: MoveOrCopy_def uninitialized_copy_n_def)
  from uninitialized_copy_loop_Inr[OF this assms(2)]
  have f: "\<forall>qb qi. \<not> (qb = cb \<and> ci \<le> qi \<and> qi < ci + n) \<longrightarrow> slot_at w' (qb, qi) = slot_at w (qb, qi)"
    and o: "\<forall>k<n. \<exists>x. slot_at w (sb, si + k) = Some (Obj x)"
    by blast+
  from f assms(2) have "slot_at w' (sb, qi) = slot_at w (sb, qi)" for qi by simp
  with o show ?thesis by simp
qed

lemma construct_from_returns:
  assumes "never_throws t" "referent w a = Some x" "slot_at w dst \<noteq> None"
  shows "\<exists>w'. construct_from t a dst w = (Inr (), w')"
proof -
  from assms(1) have nt: "\<not> args_ctor_throws t x" "\<not> copy_ctor_throws t x" "\<not> move_ctor_throws t x"
    by (simp_all add: never_throws_def)
  from assms(3) obtain s where s: "slot_at w dst = Some s" by auto
  show ?thesis
  proof (cases a)
    case (ByConstRef r)
    with assms(2) s nt show ?thesis
      by (cases r) (auto simp: construct_from_def construct_copy_def)
  next
    case (ByRvalue r)
    with assms(2) s nt show ?thesis
      by (cases r) (auto simp: construct_from_def construct_move_def)
  next
    case (FromArgs y)
    with assms(2) s nt show ?thesis
      by (auto simp: construct_from_def)
  qed
qed

lemma well_formed_slots:
  assumes "well_formed v w"
  shows "\<forall>k<vsize v. \<exists>x. slot_at w (buffer (data v), k) = Some (Obj x)"
    and "\<forall>k<capacity (data v). slot_at w (buffer (data v), k) \<noteq> None"
    and "\<And>b. buffer (data v) = Some b \<Longrightarrow> heap w b \<noteq> None \<and> b \<noteq> fresh w"
proof -
  from assms have n: "None \<notin> set (elements v w)" by (simp add: well_formed_def)
  show "\<forall>k<vsize v. \<exists>x. slot_at w (buffer (data v), k) = Some (Obj x)"
  proof (intro allI impI)
    fix k assume k: "k < vsize v"
    then have "value_at w (buffer (data v), k) \<in> set (elements v w)"
      by (auto simp: elements_def)
    with n obtain x where "value_at w (buffer (data v), k) = Some x"
      by (cases "value_at w (buffer (data v), k)") auto
    then show "\<exists>x. slot_at w (buffer (data v), k) = Some (Obj x)" by auto
  qed
  from assms show "\<forall>k<capacity (data v). slot_at w (buffer (data v), k) \<noteq> None"
    by (auto simp: well_formed_def slot_at_def split: option.splits)
  from assms show "\<And>b. buffer (data v) = Some b \<Longrightarrow> heap w b \<noteq> None \<and> b \<noteq> fresh w"
    by (auto simp: well_formed_def split: option.splits)
qed

lemma relocate_returns:
  assumes nt: "never_throws t" and wf: "well_formed v w"
    and w1: "\<And>qb qi. qb \<noteq> Some nb \<Longrightarrow> slot_at w1 (qb, qi) = slot_at w (qb, qi)"
    and dst: "\<forall>k<vsize v. slot_at w1 (Some nb, k) \<noteq> None"
    and nb: "buffer (data v) \<noteq> Some nb"
    and al: "\<And>b. buffer (data v) = Some b \<Longrightarrow> heap w1 b \<noteq> None"
  shows "\<exists>w2 w3 w4. MoveOrCopy t (buffer (data v), 0) (vsize v) (Some nb, 0) w1 = (Inr (), w2)
           \<and> destroy_n (buffer (data v), 0) (vsize v) w2 = (Inr (), w3)
           \<and> Deallocate (buffer (data v)) w3 = (Inr (), w4)"
proof -
  let ?bo = "buffer (data v)"
  have src: "\<forall>k<vsize v. \<exists>x. slot_at w1 (?bo, 0 + k) = Some (Obj x)"
    using well_formed_slots(1)[OF wf] w1[OF nb] by simp
  from dst have dst': "\<forall>k<vsize v. slot_at w1 (Some nb, 0 + k) \<noteq> None" by simp
  from MoveOrCopy_returns[OF nt nb src dst'] obtain w2 where
    m: "MoveOrCopy t (?bo, 0) (vsize v) (Some nb, 0) w1 = (Inr (), w2)" by blast
  from MoveOrCopy_sources_alive[OF m nb]
  have "\<forall>k<vsize v. \<exists>x. slot_at w2 (?bo, 0 + k) = Some (Obj x)" .
  from destroy_n_returns[OF this] obtain w3 where
    d: "destroy_n (?bo, 0) (vsize v) w2 = (Inr (), w3)" by blast
  have "heap w3 b \<noteq> None" if "?bo = Some b" for b
    using al[OF that] MoveOrCopy_allocated[OF m, of b] destroy_n_allocated[OF d, of b] by simp
  from Deallocate_returns[of ?bo w3, OF this] obtain w4 where
    "Deallocate ?bo w3 = (Inr (), w4)" by blast
  with m d show ?thesis by blast
qed

lemma Reserve_returns:
  assumes nt: "never_throws t" and wf: "well_formed v w"
    and mem: "capacity (data v) < n \<longrightarrow> allocatable t n \<and> n \<le> avail w"
  shows "\<exists>v' w'. Reserve t n v w = (Inr (), v', w')"
proof (cases "n \<le> capacity (data v)")
  case True
  then show ?thesis by (simp add: Reserve_def Capacity_raw_def)
next
  case False
  then have gt: "capacity (data v) < n" and n0: "0 < n" by simp_all
  from mem gt have al: "block_slots t n = n" by simp
  from mem gt al RawMemory_ctor_returns[of t n w] obtain buf w1 where
    rc: "RawMemory_ctor t n w = (Inr buf, w1)" by auto
  from RawMemory_ctor_Inr[OF rc n0]
  have buf: "buf = \<lparr>buffer = Some (fresh w), capacity = n\<rparr>"
    and s1: "\<And>qb qi. slot_at w1 (qb, qi) =
        (if qb = Some (fresh w) then (if qi < n then Some Raw else None) else slot_at w (qb, qi))"
    unfolding al by simp_all
  from wf have le: "vsize v \<le> capacity (data v)" by (simp add: well_formed_def)
  have "\<exists>w2 w3 w4. MoveOrCopy t (buffer (data v), 0) (vsize v) (Some (fresh w), 0) w1 = (Inr (), w2)
           \<and> destroy_n (buffer (data v), 0) (vsize v) w2 = (Inr (), w3)
           \<and> Deallocate (buffer (data v)) w3 = (Inr (), w4)"
  proof (rule relocate_returns[OF nt wf])
    show "slot_at w1 (qb, qi) = slot_at w (qb, qi)" if "qb \<noteq> Some (fresh w)" for qb qi
      using s1 that by simp
    show "\<forall>k<vsize v. slot_at w1 (Some (fresh w), k) \<noteq> None"
      using s1 le gt by simp
    show "buffer (data v) \<noteq> Some (fresh w)" by (rule well_formed_block_old[OF wf])
    show "heap w1 b \<noteq> None" if "buffer (data v) = Some b" for b
      using well_formed_slots(3)[OF wf that] RawMemory_ctor_allocated[OF rc, of b] by simp
  qed
  then obtain w2 w3 w4 where
    "MoveOrCopy t (buffer (data v), 0) (vsize v) (Some (fresh w), 0) w1 = (Inr (), w2)"
    "destroy_n (buffer (data v), 0) (vsize v) w2 = (Inr (), w3)"
    "Deallocate (buffer (data v)) w3 = (Inr (), w4)"
    by blast
  with rc buf False show ?thesis
    by (simp add: Reserve_def Capacity_raw_def MoveOrCopyAndSwap_def bind_def GetAddress_def
        RawMemory_Swap_def at_scope_exit_def RawMemory_dtor_def)
qed

lemma EmplaceBack_returns:
  assumes nt: "never_throws t" and wf: "well_formed v w"
    and ar: "\<forall>p. a = ByConstRef (Inside p) \<longrightarrow> fst p \<noteq> Some (fresh w)" and ref: "referent w a = Some x"
    and am: "moved_slot a = None"
    and mem: "vsize v = capacity (data v) \<longrightarrow>
                allocatable t (if vsize v = 0 then 1 else vsize v * 2)
              \<and> (if vsize v = 0 then 1 else vsize v * 2) \<le> avail w"
  shows "\<exists>p v' w'. EmplaceBack t a v w = (Inr p, v', w')"
proof (cases "vsize v = capacity (data v)")
  case False
  with wf have lt: "vsize v < capacity (data v)" by (simp add: well_formed_def)
  with well_formed_slots(2)[OF wf] have "slot_at w (buffer (data v), vsize v) \<noteq> None" by simp
  from construct_from_returns[OF nt ref this] obtain w1 where
    "construct_from t a (buffer (data v), vsize v) w = (Inr (), w1)" by blast
  with False lt show ?thesis
    by (simp add: EmplaceBack_def Capacity_def Capacity_raw_def at_address_def raw_index_def
        EmplaceBack_return_def Vector_index_def)
next
  case True
  let ?n = "if vsize v = 0 then 1 else vsize v * 2"
  have lt: "vsize v < ?n" by simp
  from mem True have al: "block_slots t ?n = ?n" by simp
  from mem True al RawMemory_ctor_returns[of t ?n w] obtain buf w1 where
    rc: "RawMemory_ctor t ?n w = (Inr buf, w1)" by auto
  from RawMemory_ctor_Inr[OF rc grow_size_pos]
  have buf: "buf = \<lparr>buffer = Some (fresh w), capacity = ?n\<rparr>"
    and s1: "\<And>qb qi. slot_at w1 (qb, qi) =
        (if qb = Some (fresh w) then (if qi < ?n then Some Raw else None) else slot_at w (qb, qi))"
    unfolding al by simp_all
  have r1: "referent w1 a = Some x"
    using referent_after_new[of "fresh w" w1 w a] s1 ar am ref by simp
  have "slot_at w1 (Some (fresh w), vsize v) \<noteq> None" using s1 lt by simp
  from construct_from_returns[OF nt r1 this] obtain w2 where
    c: "construct_from t a (Some (fresh w), vsize v) w1 = (Inr (), w2)" by blast
  from construct_from_Inr[OF c am]
  have s2: "\<And>q. q \<noteq> (Some (fresh w), vsize v) \<Longrightarrow> slot_at w2 q = slot_at w1 q"
    by (auto split: if_splits)
  have "\<exists>w3 w4 w5. MoveOrCopy t (buffer (data v), 0) (vsize v) (Some (fresh w), 0) w2 = (Inr (), w3)
           \<and> destroy_n (buffer (data v), 0) (vsize v) w3 = (Inr (), w4)
           \<and> Deallocate (buffer (data v)) w4 = (Inr (), w5)"
  proof (rule relocate_returns[OF nt wf])
    show "slot_at w2 (qb, qi) = slot_at w (qb, qi)" if "qb \<noteq> Some (fresh w)" for qb qi
      using s1 s2[of "(qb, qi)"] that by simp
    show "\<forall>k<vsize v. slot_at w2 (Some (fresh w), k) \<noteq> None"
      using s1 s2 by simp
    show "buffer (data v) \<noteq> Some (fresh w)" by (rule well_formed_block_old[OF wf])
    show "heap w2 b \<noteq> None" if "buffer (data v) = Some b" for b
      using well_formed_slots(3)[OF wf that] RawMemory_ctor_allocated[OF rc, of b]
        construct_from_allocated[OF c, of b] by simp
  qed
  then obtain w3 w4 w5 where
    "MoveOrCopy t (buffer (data v), 0) (vsize v) (Some (fresh w), 0) w2 = (Inr (), w3)"
    "destroy_n (buffer (data v), 0) (vsize v) w3 = (Inr (), w4)"
    "Deallocate (buffer (data v)) w4 = (Inr (), w5)"
    by blast
  with rc buf c True show ?thesis
    by (simp add: EmplaceBack_def Capacity_def Capacity_raw_def at_address_def raw_index_def
        MoveOrCopyAndSwap_def bind_def GetAddress_def RawMemory_Swap_def RawMemory_dtor_def
        EmplaceBack_return_def Vector_index_def)
qed

lemma move_backward_loop_returns:
  "\<forall>x. \<not> move_assign_throws t x \<Longrightarrow> (\<forall>k<m. \<exists>x. slot_at w (b, l + k) = Some (Obj x)) \<Longrightarrow>
   \<exists>y. slot_at w (b, l + m) = Some (Obj y) \<Longrightarrow>
   \<exists>w'. move_backward_loop t m (b, l + m) (b, Suc (l + m)) w = (Inr (), w')"
proof (induction m arbitrary: w)
  case 0
  then show ?case by simp
next
  case (Suc m)
  from Suc.prems(2)[rule_format, of m] obtain x where x: "slot_at w (b, l + m) = Some (Obj x)" by auto
  from Suc.prems(3) obtain y where s: "slot_at w (b, Suc (l + m)) = Some (Obj y)" by auto
  let ?w1 = "log_event (MoveAssign (b, Suc (l + m)))
               (put_slot (b, Suc (l + m)) (Obj x) (put_slot (b, l + m) (Obj (moved_from t x)) w))"
  from x s Suc.prems(1) have a: "assign_move t (b, l + m) (b, Suc (l + m)) w = (Inr (), ?w1)"
    by (simp add: assign_move_def)
  have src: "\<forall>k<m. \<exists>x. slot_at ?w1 (b, l + k) = Some (Obj x)"
    using Suc.prems(2) x by auto
  have dst: "\<exists>y. slot_at ?w1 (b, l + m) = Some (Obj y)" using x by simp
  from Suc.IH[OF Suc.prems(1) src dst] a show ?case by simp
qed

lemma new_T_returns:
  assumes nt: "never_throws t"
    and ar: "\<forall>p. a = ByConstRef (Inside p) \<longrightarrow> fst p \<noteq> Some (fresh w)"
    and am: "moved_slot a = None" and ref: "referent w a = Some x"
    and mem: "0 < sizeof_T t \<and> 1 \<le> avail w"
  shows "\<exists>p w'. new_T t a w = (Inr p, w')"
proof -
  from mem obtain w0 where n: "operator_new t (sizeof_T t) w = (Inr (fresh w), w0)"
    by (simp add: operator_new_def)
  from operator_new_Inr[OF n]
  have s0: "\<And>qb qi. slot_at w0 (qb, qi) =
        (if qb = Some (fresh w) then (if qi < sizeof_T t div sizeof_T t then Some Raw else None) else slot_at w (qb, qi))"
    by simp
  have r0: "referent w0 a = Some x"
    using referent_after_new[of "fresh w" w0 w a] s0 ar am ref by simp
  have "slot_at w0 (Some (fresh w), 0) \<noteq> None" using s0 mem by simp
  from construct_from_returns[OF nt r0 this] obtain w1 where
    "construct_from t a (Some (fresh w), 0) w0 = (Inr (), w1)" by blast
  with n show ?thesis by (simp add: new_T_def on_throw_def)
qed

lemma Emplace_shift_returns:
  assumes nt: "never_throws t" and wf: "well_formed v w"
    and ar: "\<forall>p. a = ByConstRef (Inside p) \<longrightarrow> fst p \<noteq> Some (fresh w)" and ref: "referent w a = Some x"
    and am: "moved_slot a = None"
    and dist: "dist < vsize v" and room: "vsize v < capacity (data v)"
    and mem: "0 < sizeof_T t \<and> 1 \<le> avail w"
    and ars: "assign_to_raw_stores t"
  shows "\<exists>w'. Emplace_shift t dist a v w = (Inr (), w')"
proof -
  let ?bo = "buffer (data v)"
  let ?tb = "Some (fresh w)"
  let ?m = "vsize v - 1 - dist"
  have ne: "?bo \<noteq> ?tb" using wf by (rule well_formed_block_old)
  have vs: "vsize v - 1 = dist + ?m" "vsize v = Suc (dist + ?m)" using dist by auto
  from assms(1) have nma: "\<forall>x. \<not> move_assign_throws t x" and nmc: "\<forall>x. \<not> move_ctor_throws t x"
    by (simp_all add: never_throws_def)
  from new_T_returns[OF nt ar am ref mem] obtain temp w1 where s1: "new_T t a w = (Inr temp, w1)"
    by blast
  from new_T_Inr[OF s1 am ar] obtain x' where temp: "temp = (?tb, 0)"
    and h1t: "slot_at w1 (?tb, 0) = Some (Obj x')"
    and h1: "\<And>qb qi. qb \<noteq> ?tb \<Longrightarrow> slot_at w1 (qb, qi) = slot_at w (qb, qi)"
    by blast
  from well_formed_slots(1)[OF wf] dist h1[OF ne] obtain y where
    y: "slot_at w1 (?bo, vsize v - 1) = Some (Obj y)" by force
  from well_formed_slots(2)[OF wf] room h1[OF ne] obtain s where
    d2: "slot_at w1 (?bo, vsize v) = Some s" by force
  let ?w2 = "log_event (MoveCtor (?bo, vsize v))
               (put_slot (?bo, vsize v) (Obj y) (put_slot (?bo, vsize v - 1) (Obj (moved_from t y)) w1))"
  from y d2 nmc have s2: "construct_move t (?bo, vsize v - 1) (?bo, vsize v) w1 = (Inr (), ?w2)"
    by (simp add: construct_move_def)
  have h2: "slot_at ?w2 (qb, qi) =
      (if (qb, qi) = (?bo, vsize v) then Some (Obj y)
       else if (qb, qi) = (?bo, vsize v - 1) then Some (Obj (moved_from t y)) else slot_at w1 (qb, qi))" for qb qi
    using d2 y by auto
  have src: "\<forall>k<?m. \<exists>x. slot_at ?w2 (?bo, dist + k) = Some (Obj x)"
  proof (intro allI impI)
    fix k assume "k < ?m"
    then have "dist + k < vsize v" "dist + k \<noteq> vsize v" "dist + k \<noteq> vsize v - 1" by arith+
    with well_formed_slots(1)[OF wf] h1[OF ne] h2[of ?bo "dist + k"]
    show "\<exists>x. slot_at ?w2 (?bo, dist + k) = Some (Obj x)" by simp
  qed
  have dst: "\<exists>y. slot_at ?w2 (?bo, dist + ?m) = Some (Obj y)"
    using h2[of ?bo "vsize v - 1"] vs dist by simp
  from move_backward_loop_returns[OF nma src dst] obtain w3 where
    s3': "move_backward_loop t ?m (?bo, dist + ?m) (?bo, Suc (dist + ?m)) ?w2 = (Inr (), w3)"
    by blast
  from move_backward_loop_Inr[OF s3']
  have h3h: "0 < ?m \<Longrightarrow> slot_at w3 (?bo, dist) = map_option (husk t) (slot_at ?w2 (?bo, dist))"
    and h3b: "\<And>qb qi. \<not> (qb = ?bo \<and> dist \<le> qi \<and> qi < Suc (dist + ?m)) \<Longrightarrow> slot_at w3 (qb, qi) = slot_at ?w2 (qb, qi)"
    and h3z: "?m = 0 \<Longrightarrow> slot_at w3 (?bo, dist) = slot_at ?w2 (?bo, dist)"
    by blast+
  have "\<exists>z. slot_at w3 (?bo, dist) = Some (Obj z)"
  proof (cases "?m = 0")
    case True
    then have "dist = vsize v - 1" using dist by arith
    with h3z[OF True] h2[of ?bo dist] dist show ?thesis by simp
  next
    case False
    then have "dist < vsize v - 1" by arith
    with well_formed_slots(1)[OF wf] h1[OF ne] h2[of ?bo dist] dist
    obtain z where "slot_at ?w2 (?bo, dist) = Some (Obj z)" by force
    with h3h False show ?thesis by simp
  qed
  then obtain z where z: "slot_at w3 (?bo, dist) = Some (Obj z)" by blast
  define w4 where "w4 = log_event (Dtor (?bo, dist)) (put_slot (?bo, dist) Raw w3)"
  from z have s4: "destroy_at (?bo, dist) w3 = (Inr (), w4)" by (simp add: destroy_at_def w4_def)
  have t4: "slot_at w4 (?tb, 0) = Some (Obj x')"
    unfolding w4_def
    using ne h3b[of ?tb 0] h2[of ?tb 0] h1t z by (auto simp: eq_commute[of ?bo])
  have d4: "slot_at w4 (?bo, dist) = Some Raw" unfolding w4_def using z by simp
  from t4 d4 nma ars obtain w5 where s5: "assign_move t (?tb, 0) (?bo, dist) w4 = (Inr (), w5)"
    by (simp add: assign_move_def)
  from dist room have i1: "vsize v - 1 < capacity (data v)" and i2: "dist < capacity (data v)"
    and i3: "dist \<le> vsize v - 1" by arith+
  from s1 temp s2 s3' vs s4 s5 i1 i2 i3 show ?thesis
    by (simp add: Emplace_shift_def bind_def at_address_def raw_index_def vbegin_def vend_def
        GetAddress_def std_move_backward_def)
qed

lemma Emplace_grow_returns:
  assumes nt: "never_throws t" and wf: "well_formed v w"
    and ar: "\<forall>p. a = ByConstRef (Inside p) \<longrightarrow> fst p \<noteq> Some (fresh w)" and ref: "referent w a = Some x"
    and am: "moved_slot a = None"
    and dist: "dist \<le> vsize v"
    and mem: "allocatable t (if vsize v = 0 then 1 else vsize v * 2)
            \<and> (if vsize v = 0 then 1 else vsize v * 2) \<le> avail w"
  shows "\<exists>p v' w'. Emplace_grow t dist a v w = (Inr p, v', w')"
proof -
  let ?n = "if vsize v = 0 then 1 else vsize v * 2"
  let ?bo = "buffer (data v)"
  let ?nb = "Some (fresh w)"
  have lt: "vsize v < ?n" by simp
  have ne: "?bo \<noteq> ?nb" using wf by (rule well_formed_block_old)
  from mem have al: "block_slots t ?n = ?n" by simp
  from mem al RawMemory_ctor_returns[of t ?n w] obtain buf w1 where
    rc: "RawMemory_ctor t ?n w = (Inr buf, w1)" by auto
  from RawMemory_ctor_Inr[OF rc grow_size_pos]
  have buf: "buf = \<lparr>buffer = ?nb, capacity = ?n\<rparr>"
    and s1: "\<And>qb qi. slot_at w1 (qb, qi) =
        (if qb = ?nb then (if qi < ?n then Some Raw else None) else slot_at w (qb, qi))"
    unfolding al by simp_all
  have r1: "referent w1 a = Some x"
    using referent_after_new[of "fresh w" w1 w a] s1 ar am ref by simp
  have "slot_at w1 (?nb, dist) \<noteq> None" using s1 lt dist by simp
  from construct_from_returns[OF nt r1 this] obtain w2 where
    c: "construct_from t a (?nb, dist) w1 = (Inr (), w2)" by blast
  from construct_from_Inr[OF c am]
  have s2: "\<And>q. q \<noteq> (?nb, dist) \<Longrightarrow> slot_at w2 q = slot_at w1 q"
    by (auto split: if_splits)
  have old2: "slot_at w2 (?bo, k) = slot_at w (?bo, k)" for k
    using s2[of "(?bo, k)"] s1[of ?bo k] ne by simp
  have src1: "\<forall>k<dist. \<exists>x. slot_at w2 (?bo, 0 + k) = Some (Obj x)"
    using well_formed_slots(1)[OF wf] dist old2 by simp
  have dst1: "\<forall>k<dist. slot_at w2 (?nb, 0 + k) \<noteq> None"
    using s1 s2 lt dist by simp
  from MoveOrCopy_returns[OF nt ne src1 dst1] obtain w3 where
    m1: "MoveOrCopy t (?bo, 0) dist (?nb, 0) w2 = (Inr (), w3)" by blast
  from MoveOrCopy_Inr[OF m1 ne]
  have f3: "\<And>qb qi. \<not> (qb = ?nb \<and> 0 \<le> qi \<and> qi < 0 + dist) \<and> qb \<noteq> ?bo
               \<Longrightarrow> slot_at w3 (qb, qi) = slot_at w2 (qb, qi)"
    and g3: "\<And>qi. \<not> (0 \<le> qi \<and> qi < 0 + dist) \<Longrightarrow> slot_at w3 (?bo, qi) = slot_at w2 (?bo, qi)"
    by blast+
  note a3 = MoveOrCopy_sources_alive[OF m1 ne]
  have src2: "\<forall>k<vsize v - dist. \<exists>x. slot_at w3 (?bo, dist + k) = Some (Obj x)"
  proof (intro allI impI)
    fix k assume "k < vsize v - dist"
    then have "dist + k < vsize v" by arith
    with well_formed_slots(1)[OF wf] old2 g3[of "dist + k"]
    show "\<exists>x. slot_at w3 (?bo, dist + k) = Some (Obj x)" by simp
  qed
  have dst2: "\<forall>k<vsize v - dist. slot_at w3 (?nb, dist + 1 + k) \<noteq> None"
  proof (intro allI impI)
    fix k assume "k < vsize v - dist"
    then have "dist + 1 + k < ?n" "dist + 1 + k \<noteq> dist" "\<not> dist + 1 + k < dist" by auto
    with f3[of ?nb "dist + 1 + k"] s2[of "(?nb, dist + 1 + k)"] s1[of ?nb "dist + 1 + k"] ne
    show "slot_at w3 (?nb, dist + 1 + k) \<noteq> None" by (simp add: eq_commute[of ?bo])
  qed
  from MoveOrCopy_returns[OF nt ne src2 dst2] obtain w4 where
    m2: "MoveOrCopy t (?bo, dist) (vsize v - dist) (?nb, dist + 1) w3 = (Inr (), w4)" by blast
  from MoveOrCopy_Inr[OF m2 ne]
  have g4: "\<And>qi. \<not> (dist \<le> qi \<and> qi < dist + (vsize v - dist)) \<Longrightarrow> slot_at w4 (?bo, qi) = slot_at w3 (?bo, qi)"
    by blast
  note a4 = MoveOrCopy_sources_alive[OF m2 ne]
  have src3: "\<forall>k<vsize v. \<exists>x. slot_at w4 (?bo, 0 + k) = Some (Obj x)"
  proof (intro allI impI)
    fix k assume k: "k < vsize v"
    show "\<exists>x. slot_at w4 (?bo, 0 + k) = Some (Obj x)"
    proof (cases "k < dist")
      case True
      with a3 g4[of k] show ?thesis by simp
    next
      case False
      with k have kd: "k - dist < vsize v - dist" and e: "dist + (k - dist) = k" by arith+
      from a4[rule_format, OF kd] e show ?thesis by simp
    qed
  qed
  from destroy_n_returns[OF src3] obtain w5 where
    d: "destroy_n (?bo, 0) (vsize v) w4 = (Inr (), w5)" by blast
  have "heap w5 b \<noteq> None" if "?bo = Some b" for b
    using well_formed_slots(3)[OF wf that] RawMemory_ctor_allocated[OF rc, of b]
      construct_from_allocated[OF c, of b] MoveOrCopy_allocated[OF m1, of b]
      MoveOrCopy_allocated[OF m2, of b] destroy_n_allocated[OF d, of b]
    by simp
  from Deallocate_returns[of ?bo w5, OF this] obtain w6 where
    de: "Deallocate ?bo w5 = (Inr (), w6)" by blast
  from rc buf c m1 m2 d de show ?thesis
    by (simp add: Emplace_grow_def bind_def GetAddress_def RawMemory_Swap_def RawMemory_dtor_def)
qed

lemma Emplace_returns:
  assumes nt: "never_throws t" and wf: "well_formed v w"
    and ar: "\<forall>p. a = ByConstRef (Inside p) \<longrightarrow> fst p \<noteq> Some (fresh w)" and ref: "referent w a = Some x"
    and am: "moved_slot a = None"
    and dist: "dist \<le> vsize v"
    and mem: "allocatable t (max 1 (2 * vsize v)) \<and> max 1 (2 * vsize v) \<le> avail w"
    and ars: "dist < vsize v \<and> vsize v < capacity (data v) \<longrightarrow> assign_to_raw_stores t"
  shows "\<exists>p v' w'. Emplace t (buffer (data v), dist) a v w = (Inr p, v', w')"
proof -
  consider (grow) "vsize v = capacity (data v)"
    | (atend) "vsize v \<noteq> capacity (data v)" "dist = vsize v"
    | (shift) "vsize v \<noteq> capacity (data v)" "dist < vsize v"
    using dist by arith
  then show ?thesis
  proof cases
    case grow
    from mem have "allocatable t (if vsize v = 0 then 1 else vsize v * 2)
            \<and> (if vsize v = 0 then 1 else vsize v * 2) \<le> avail w"
      by (simp add: grow_size_max mult.commute)
    from Emplace_grow_returns[OF nt wf ar ref am dist this] grow dist show ?thesis
      by (simp add: Emplace_def vbegin_def vend_def GetAddress_def Capacity_def Capacity_raw_def)
  next
    case atend
    with wf have lt: "vsize v < capacity (data v)" by (simp add: well_formed_def)
    with well_formed_slots(2)[OF wf] have "slot_at w (buffer (data v), vsize v) \<noteq> None" by simp
    from construct_from_returns[OF nt ref this] obtain w1 where
      "construct_from t a (buffer (data v), vsize v) w = (Inr (), w1)" by blast
    with atend show ?thesis
      by (simp add: Emplace_def vbegin_def vend_def GetAddress_def Capacity_def Capacity_raw_def)
  next
    case shift
    with wf have lt: "vsize v < capacity (data v)" by (simp add: well_formed_def)
    from mem have "0 < sizeof_T t \<and> 1 \<le> avail w" by (simp add: allocatable_def)
    from Emplace_shift_returns[OF nt wf ar ref am shift(2) lt this] ars shift(2) lt obtain w1 where
      "Emplace_shift t dist a v w = (Inr (), w1)" by blast
    with shift show ?thesis
      by (simp add: Emplace_def vbegin_def vend_def GetAddress_def Capacity_def Capacity_raw_def)
  qed
qed

lemma Resize_returns:
  assumes nt: "never_throws t" and wf: "well_formed v w"
    and mem: "capacity (data v) < n \<longrightarrow> allocatable t n \<and> n \<le> avail w"
  shows "\<exists>v' w'. Resize t n v w = (Inr (), v', w')"
proof -
  from nt have nd: "\<not> default_ctor_throws t" by (simp add: never_throws_def)
  consider (same) "n = vsize v" | (more) "vsize v < n" | (less) "n < vsize v" by arith
  then show ?thesis
  proof cases
    case same
    then show ?thesis by (simp add: Resize_def)
  next
    case less
    have "\<forall>k<vsize v - n. \<exists>x. slot_at w (buffer (data v), n + k) = Some (Obj x)"
      using well_formed_slots(1)[OF wf] by simp
    from destroy_n_returns[OF this] obtain w1 where
      "destroy_n (buffer (data v), n) (vsize v - n) w = (Inr (), w1)" by blast
    with less show ?thesis by (simp add: Resize_def GetAddress_def)
  next
    case more
    show ?thesis
    proof (cases "capacity (data v) < n")
      case True
      from Reserve_returns[OF nt wf mem] obtain v1 w1 where r: "Reserve t n v w = (Inr (), v1, w1)"
        by blast
      from mem True have al: "block_slots t n = n" by simp
      from Reserve_Inr[OF r wf True, unfolded al]
      have v1: "v1 = v\<lparr>data := \<lparr>buffer = Some (fresh w), capacity = n\<rparr>\<rparr>"
        and lo: "\<forall>k<vsize v. slot_at w1 (Some (fresh w), k) = slot_at w (buffer (data v), k)"
        and hi: "\<forall>k. vsize v \<le> k \<and> k < n \<longrightarrow> slot_at w1 (Some (fresh w), k) = Some Raw"
        by blast+
      have "\<forall>k<n - vsize v. slot_at w1 (Some (fresh w), vsize v + k) \<noteq> None"
        using hi by simp
      from uninitialized_value_construct_loop_returns[OF nd this] obtain w2 where
        "uninitialized_value_construct_loop t (Some (fresh w), vsize v) (n - vsize v)
           (Some (fresh w), vsize v) w1 = (Inr (), w2)" by blast
      with more True r v1 show ?thesis
        by (simp add: Resize_def Capacity_def Capacity_raw_def GetAddress_def
            uninitialized_value_construct_n_def)
    next
      case False
      have "\<forall>k<n - vsize v. slot_at w (buffer (data v), vsize v + k) \<noteq> None"
        using well_formed_slots(2)[OF wf] False by simp
      from uninitialized_value_construct_loop_returns[OF nd this] obtain w2 where
        "uninitialized_value_construct_loop t (buffer (data v), vsize v) (n - vsize v)
           (buffer (data v), vsize v) w = (Inr (), w2)" by blast
      with more False show ?thesis
        by (simp add: Resize_def Capacity_def Capacity_raw_def GetAddress_def
            uninitialized_value_construct_n_def)
    qed
  qed
qed

section \<open>The invariant of the data model\<close>

text \<open>
  C1 fails on the code. \<^verbatim>\<open>Erase(begin())\<close> on the vector \<open>{1, 2, 3}\<close> of capacity 4, which
  satisfies the invariant, runs the destructor on slot 0, move-assigns slots 1 and 2 down
  into slots 0 and 1, and decrements the length to 2. No destructor runs on slot 2: it is
  the new one-past-end slot and still holds a (moved-from) object, so the slots from the
  length on are not all raw storage. The destructor of the vector then destroys two
  elements and releases the block with the object in slot 2 still alive.
\<close>

theorem Erase_leaves_object_past_end:
  "well_formed v123 w123 \<and> raw_tail v123 w123
   \<and> (case Erase int_traits (Some 2, 0) v123 w123 of
        (r, v', w') \<Rightarrow>
          r = Inr (Some 2, 0) \<and> Size v' = 2 \<and> Capacity v' = 4
        \<and> elements v' w' = [Some 2, Some 3]
        \<and> slot_at w' (Some 2, 2) = Some (Obj 3)
        \<and> new_events w123 w' = [Dtor (Some 2, 0), MoveAssign (Some 2, 0), MoveAssign (Some 2, 1)]
        \<and> \<not> raw_tail v' w'
        \<and> fst (Vector_dtor v' w') = Inr () \<and> lost (snd (Vector_dtor v' w')) = 1)"
  by code_simp

section \<open>The guarantee when growth fails\<close>




section \<open>Copy assignment\<close>

text \<open>
  C4 fails on the code. Copy-assigning \<open>{7, 8, 9}\<close> to the vector \<open>{1}\<close> of capacity 4 takes
  the branch that reuses the storage. \<^verbatim>\<open>std::copy\<close> runs over the whole source, so the
  copy assignment operator runs on slots 0, 1 and 2 of the target, although only slot 0
  holds an object; the copy constructor then runs on slots 1 and 2. The overlapping
  prefix has length 1.
\<close>

theorem copy_assign_assigns_to_raw_slots:
  "slot_at w789 (Some 3, 1) = Some Raw \<and> slot_at w789 (Some 3, 2) = Some Raw
   \<and> min (Size (source_and_target 1)) (Size (source_and_target 0)) = 1
   \<and> (case copy_assign int_traits 1 0 source_and_target w789 of
        (r, vs', w') \<Rightarrow>
          r = Inr () \<and> elements (vs' 1) w' = [Some 7, Some 8, Some 9]
        \<and> new_events w789 w' =
            [CopyAssign (Some 3, 0), CopyAssign (Some 3, 1), CopyAssign (Some 3, 2),
             CopyCtor (Some 3, 1), CopyCtor (Some 3, 2)])"
  by code_simp

section \<open>Moving a \<^verbatim>\<open>RawMemory\<close>\<close>

text \<open>
  C5, as the code has it. Move construction hands the block and the capacity of the source
  to the new object and leaves the source empty (no block, capacity 0). Move assignment
  between two distinct objects exchanges block and capacity: the destination receives what
  the source held, and the source receives what the destination held before, so it is
  empty afterwards only if the destination was; every other object is untouched, and
  assigning an object to itself changes nothing. Both are a fixed number of field
  exchanges.
\<close>

theorem RawMemory_move_transfers_or_exchanges:
  "fst (RawMemory_move_ctor src) = src
   \<and> snd (RawMemory_move_ctor src) = \<lparr>buffer = None, capacity = 0\<rparr>
   \<and> RawMemory_move_assign a a st = st
   \<and> (a \<noteq> b \<longrightarrow>
        RawMemory_move_assign a b st a = st b
      \<and> RawMemory_move_assign a b st b = st a
      \<and> (\<forall>c. c \<noteq> a \<and> c \<noteq> b \<longrightarrow> RawMemory_move_assign a b st c = st c))"
  by (simp add: RawMemory_move_ctor_def RawMemory_move_assign_def RawMemory_Swap_def
      RawMemory_default_def)

theorem RawMemory_move_transfers_or_exchanges_witness:
  "RawMemory_move_assign 0 1 two_raws 0 = \<lparr>buffer = Some 8, capacity = 5\<rparr>
   \<and> RawMemory_move_assign 0 1 two_raws 1 = \<lparr>buffer = Some 7, capacity = 2\<rparr>
   \<and> RawMemory_move_assign 0 1 two_raws 2 = \<lparr>buffer = None, capacity = 0\<rparr>"
  using RawMemory_move_transfers_or_exchanges [of _ 0 two_raws 1]
  by (simp add: two_raws_def)

text \<open>
  C5 as stated fails for move assignment: after \<^verbatim>\<open>a = std::move(b)\<close> with \<open>a\<close> holding block
  7 of capacity 2 and \<open>b\<close> holding block 8 of capacity 5, the source \<open>b\<close> is not empty: it
  holds block 7 and capacity 2.
\<close>

theorem RawMemory_move_assign_source_not_empty:
  "RawMemory_move_assign 0 1 two_raws 1 \<noteq> \<lparr>buffer = None, capacity = 0\<rparr>"
  by (simp add: RawMemory_move_assign_def RawMemory_Swap_def two_raws_def)

section \<open>Self-assignment\<close>

text \<open>
  C9. Assigning a vector to itself, by copy or by move, changes nothing: not the vector
  (its length, its capacity, its block), not any other vector, and not the store (so
  not the value of any element; no constructor, assignment or destructor runs).
\<close>

theorem self_assignment_changes_nothing:
  "copy_assign t a a vs w = (Inr (), vs, w)
   \<and> move_assign a a vs = vs
   \<and> (case copy_assign t a a vs w of
        (r, vs', w') \<Rightarrow>
          Size (vs' a) = Size (vs a) \<and> Capacity (vs' a) = Capacity (vs a)
        \<and> elements (vs' a) w' = elements (vs a) w)
   \<and> Size (move_assign a a vs a) = Size (vs a)
   \<and> Capacity (move_assign a a vs a) = Capacity (vs a)
   \<and> elements (move_assign a a vs a) w = elements (vs a) w"
  by (simp add: copy_assign_def move_assign_def)


end
